theory Spec2Isabelle
  imports Main "HOL-Library.AList" "HOL-Library.Sublist"
begin

section \<open>The LSF driver of the scheduler (src/ert/scheduler/lsf\_driver.py)\<close>

text \<open>
  Python strings are modelled as \<^typ>\<open>string\<close>: every \<^typ>\<open>char\<close> stands for the code
  point of the same number, so the model covers the strings whose code points are below
  256. The character classes below are Python's \<^verbatim>\<open>str.isspace\<close>, \<^verbatim>\<open>str.isdigit\<close> and
  the line boundaries of \<^verbatim>\<open>str.splitlines\<close>, restricted to that range.
\<close>

subsection \<open>String primitives of Python used by the driver\<close>

definition isspace :: "char \<Rightarrow> bool" where
  "isspace c = (of_char c \<in> {9, 10, 11, 12, 13, 28, 29, 30, 31, 32, 133, 160 :: nat})"

definition isdigit :: "char \<Rightarrow> bool" where
  "isdigit c = (of_char c \<in> {48, 49, 50, 51, 52, 53, 54, 55, 56, 57, 178, 179, 185 :: nat})"

definition is_linebreak :: "char \<Rightarrow> bool" where
  "is_linebreak c = (of_char c \<in> {10, 11, 12, 13, 28, 29, 30, 133 :: nat})"

text \<open>
  \<^verbatim>\<open>str.splitlines()\<close>: the text is cut at every line boundary, \<^verbatim>\<open>\r\n\<close> counts as one
  boundary, and no empty line is produced after a final boundary. The first argument is
  the line read so far.
\<close>

fun splitlines_from :: "string \<Rightarrow> string \<Rightarrow> string list" where
  "splitlines_from cur [] = (if cur = [] then [] else [cur])"
| "splitlines_from cur [c] = (if is_linebreak c then [cur] else [cur @ [c]])"
| "splitlines_from cur (c # d # cs) =
     (if c = CHR 0x0D \<and> d = CHR 0x0A then cur # splitlines_from [] cs
      else if is_linebreak c then cur # splitlines_from [] (d # cs)
      else splitlines_from (cur @ [c]) (d # cs))"

definition splitlines :: "string \<Rightarrow> string list" where
  "splitlines s = splitlines_from [] s"

text \<open>
  \<^verbatim>\<open>str.split(maxsplit=n)\<close> with no separator: runs of whitespace separate the tokens,
  at most \<open>n\<close> splits are made, and what is left after them (leading whitespace
  removed) is the last token.
\<close>

fun split_ws :: "nat \<Rightarrow> string \<Rightarrow> string list" where
  "split_ws 0 s =
     (let r = dropWhile isspace s in if r = [] then [] else [r])"
| "split_ws (Suc n) s =
     (let r = dropWhile isspace s in
      if r = [] then []
      else takeWhile (\<lambda>c. \<not> isspace c) r # split_ws n (dropWhile (\<lambda>c. \<not> isspace c) r))"

subsection \<open>Job states and \<^verbatim>\<open>parse_bjobs\<close>\<close>

text \<open>\<^verbatim>\<open>get_args(JobState)\<close>: the nine literals of the type \<^verbatim>\<open>JobState\<close>.\<close>

definition JobState :: "string list" where
  "JobState = [''EXIT'', ''DONE'', ''PEND'', ''RUN'', ''ZOMBI'', ''PDONE'', ''SSUSP'',
               ''USUSP'', ''UNKWN'']"

text \<open>
  Log records keep the level and the values that the source formats into the message.
\<close>

datatype level = DEBUG | INFO | WARNING | ERROR

datatype message =
    Unknown_state string string
  | Submitting "string list"
  | Bsub_failed "string list" int string
  | Accepted int string
  | Kill_missing_jobid int
  | Killing int string
  | Kill_failed_returncode int string
  | Kill_failed_output string string
  | Bjobs_returncode int string
  | Is_running int
  | Has_failed int string
  | Has_succeeded int string
  | Missing_in_bjobs "string set"

type_synonym log_record = "level \<times> message"

text \<open>
  A Python \<^verbatim>\<open>dict\<close> that is iterated is an association list with distinct keys:
  \<^const>\<open>AList.update\<close> overwrites the value of a key that is present, where it stands, and
  appends a new key at the end, as assignment to a \<^verbatim>\<open>dict\<close> item does.
\<close>

type_synonym 'v dict = "(string \<times> 'v) list"

text \<open>
  The body of the loop of \<^verbatim>\<open>parse_bjobs\<close>, on one line, with the log records written so
  far and \<^verbatim>\<open>data\<close>.
\<close>

definition parse_bjobs_line ::
  "log_record list \<times> string dict dict \<Rightarrow> string \<Rightarrow> log_record list \<times> string dict dict" where
  "parse_bjobs_line acc line =
     (if line = [] \<or> \<not> isdigit (hd line) then acc
      else
        let tokens = split_ws 3 line in
        if length tokens \<ge> 3 \<and> tokens ! 0 \<noteq> [] \<and> tokens ! 2 \<noteq> [] then
          if tokens ! 2 \<notin> set JobState then
            (fst acc @ [(ERROR, Unknown_state (tokens ! 2) (tokens ! 0))], snd acc)
          else
            (fst acc, AList.update (tokens ! 0) [(''job_state'', tokens ! 2)] (snd acc))
        else acc)"

definition parse_bjobs_data :: "string \<Rightarrow> log_record list \<times> string dict dict" where
  "parse_bjobs_data bjobs_output = foldl parse_bjobs_line ([], []) (splitlines bjobs_output)"

text \<open>
  \<^verbatim>\<open>parse_bjobs\<close> returns \<^verbatim>\<open>{"jobs": data}\<close>; the model returns the log records it wrote
  beside it.
\<close>

definition parse_bjobs :: "string \<Rightarrow> log_record list \<times> string dict dict dict" where
  "parse_bjobs bjobs_output =
     (fst (parse_bjobs_data bjobs_output), [(''jobs'', snd (parse_bjobs_data bjobs_output))])"

subsection \<open>The validated status: \<^verbatim>\<open>_Stat\<close> and \<^verbatim>\<open>AnyJob\<close>\<close>

datatype error =
    RuntimeError string
  | ValidationError
  | KeyError
  | UnicodeDecodeError
  | OSError

text \<open>
  The three pydantic models of a job; each has the one field \<^verbatim>\<open>job_state\<close>.
\<close>

datatype any_job = FinishedJob string | QueuedJob string | RunningJob string

fun job_state :: "any_job \<Rightarrow> string" where
  "job_state (FinishedJob st) = st"
| "job_state (QueuedJob st) = st"
| "job_state (RunningJob st) = st"

text \<open>
  Validation of one value against \<^verbatim>\<open>AnyJob\<close>, the union discriminated by
  \<^verbatim>\<open>job_state\<close>: the tag selects the model, and a missing tag or a tag that no model
  of the union has is a validation error.
\<close>

definition validate_AnyJob :: "string dict \<Rightarrow> error + any_job" where
  "validate_AnyJob d =
     (case map_of d ''job_state'' of
        None \<Rightarrow> Inl ValidationError
      | Some st \<Rightarrow>
          if st = ''DONE'' \<or> st = ''EXIT'' then Inr (FinishedJob st)
          else if st = ''PEND'' then Inr (QueuedJob st)
          else if st = ''RUN'' then Inr (RunningJob st)
          else Inl ValidationError)"

text \<open>Validation of \<^verbatim>\<open>Mapping[str, AnyJob]\<close>: every value must validate.\<close>

fun validate_jobs :: "string dict dict \<Rightarrow> error + any_job dict" where
  "validate_jobs [] = Inr []"
| "validate_jobs ((job_id, d) # rest) =
     (case validate_AnyJob d of
        Inl e \<Rightarrow> Inl e
      | Inr job \<Rightarrow>
          (case validate_jobs rest of
             Inl e \<Rightarrow> Inl e
           | Inr jobs \<Rightarrow> Inr ((job_id, job) # jobs)))"

text \<open>
  \<^verbatim>\<open>_Stat(**kwargs)\<close>: the field \<^verbatim>\<open>jobs\<close> is required. The model of \<^verbatim>\<open>_Stat\<close> is the
  validated value of that field.
\<close>

definition Stat :: "string dict dict dict \<Rightarrow> error + any_job dict" where
  "Stat kwargs =
     (case map_of kwargs ''jobs'' of
        None \<Rightarrow> Inl ValidationError
      | Some data \<Rightarrow> validate_jobs data)"

subsection \<open>Events, subprocesses and the state of the driver\<close>

text \<open>\<^verbatim>\<open>StartedEvent(iens)\<close> and \<^verbatim>\<open>FinishedEvent(iens, returncode, aborted)\<close>.\<close>

datatype event = StartedEvent int | FinishedEvent int int bool

text \<open>
  What a finished subprocess hands back: its return code and its two streams as
  decoded with \<^verbatim>\<open>errors="ignore"\<close>, which cannot fail. \<open>stderr_utf8\<close> tells whether
  the bytes of the error stream are valid UTF-8, that is, whether the strict
  \<^verbatim>\<open>stderr.decode()\<close> succeeds (it then gives \<open>stderr\<close>).
\<close>

record process =
  returncode :: int
  stdout :: string
  stderr :: string
  stderr_utf8 :: bool

text \<open>
  The fields of the driver that the operations read or write (\<open>queue_name\<close>,
  \<open>bsub_cmd\<close>, \<open>jobs\<close>, \<open>iens2jobid\<close>, \<open>event_queue\<close>: the events put so far, oldest
  first), and the parts of the world they write to: the records of the module's logger,
  the text files, addressed by directory and file name, and \<open>dirs\<close>, the directories
  that exist and can be written to. The queue is unbounded, so \<^verbatim>\<open>put\<close> never waits.
\<close>

record state =
  queue_name :: "string option"
  bsub_cmd :: string
  jobs :: "string \<rightharpoonup> int \<times> string"
  iens2jobid :: "int \<rightharpoonup> string"
  event_queue :: "event list"
  log :: "log_record list"
  files :: "string \<times> string \<rightharpoonup> string"
  dirs :: "string set"

definition logger :: "level \<Rightarrow> message \<Rightarrow> state \<Rightarrow> state" where
  "logger lv m s = s\<lparr>log := log s @ [(lv, m)]\<rparr>"

definition put :: "event \<Rightarrow> state \<Rightarrow> state" where
  "put ev s = s\<lparr>event_queue := event_queue s @ [ev]\<rparr>"

text \<open>
  The driver as \<^verbatim>\<open>__init__\<close> leaves it, in a world with no log records, no files and
  the directories \<open>ds\<close>.
\<close>

definition init :: "string option \<Rightarrow> string \<Rightarrow> string set \<Rightarrow> state" where
  "init qn bsub ds =
     \<lparr>queue_name = qn, bsub_cmd = bsub, jobs = Map.empty, iens2jobid = Map.empty,
      event_queue = [], log = [], files = Map.empty, dirs = ds\<rparr>"

subsection \<open>\<^verbatim>\<open>LsfDriver.submit\<close>\<close>

definition LSF_INFO_JSON_FILENAME :: string where
  "LSF_INFO_JSON_FILENAME = ''lsf_info.json''"

text \<open>
  \<^verbatim>\<open>re.search("Job <([0-9]+)> is submitted to .+ queue", text)[1]\<close>. A match at the head
  of the text: the literal, the longest run of ASCII digits (which must not be empty and
  must be followed by the next literal, so no shorter run can match), then on the same
  line (the dot does not match \<^verbatim>\<open>\n\<close>) at least one character followed somewhere by
  \<^verbatim>\<open>" queue"\<close>. The search returns the group of the leftmost match.
\<close>

definition is_ascii_digit :: "char \<Rightarrow> bool" where
  "is_ascii_digit c = (48 \<le> (of_char c :: nat) \<and> (of_char c :: nat) \<le> 57)"

fun strip_prefix :: "string \<Rightarrow> string \<Rightarrow> string option" where
  "strip_prefix [] s = Some s"
| "strip_prefix (p # ps) [] = None"
| "strip_prefix (p # ps) (c # cs) = (if p = c then strip_prefix ps cs else None)"

fun occurs :: "string \<Rightarrow> string \<Rightarrow> bool" where
  "occurs pat [] = (pat = [])"
| "occurs pat (c # cs) = (prefix pat (c # cs) \<or> occurs pat cs)"

definition match_submitted :: "string \<Rightarrow> string option" where
  "match_submitted s =
     (case strip_prefix ''Job <'' s of
        None \<Rightarrow> None
      | Some r \<Rightarrow>
          if takeWhile is_ascii_digit r = [] then None
          else
            (case strip_prefix ''> is submitted to '' (dropWhile is_ascii_digit r) of
               None \<Rightarrow> None
             | Some t \<Rightarrow>
                 (case takeWhile (\<lambda>c. c \<noteq> CHR 0x0A) t of
                    [] \<Rightarrow> None
                  | c # rest \<Rightarrow>
                      if occurs '' queue'' rest then Some (takeWhile is_ascii_digit r)
                      else None)))"

fun search_submitted :: "string \<Rightarrow> string option" where
  "search_submitted [] = match_submitted []"
| "search_submitted (c # cs) =
     (case match_submitted (c # cs) of
        Some job_id \<Rightarrow> Some job_id
      | None \<Rightarrow> search_submitted cs)"

text \<open>\<^verbatim>\<open>json.dumps({"job_id": job_id})\<close> for a string of digits, which needs no escape.\<close>

definition json_dumps_job_id :: "string \<Rightarrow> string" where
  "json_dumps_job_id job_id =
     [CHR ''{'', CHR 0x22] @ ''job_id'' @ [CHR 0x22, CHR '':'', CHR '' '', CHR 0x22] @ job_id
       @ [CHR 0x22, CHR ''}'']"

text \<open>
  \<^verbatim>\<open>Path.write_text\<close>: the file is written when its directory exists and can be written
  to; otherwise the call raises an \<^verbatim>\<open>OSError\<close> (\<^verbatim>\<open>FileNotFoundError\<close>,
  \<^verbatim>\<open>PermissionError\<close>) and writes nothing.
\<close>

definition write_text :: "string \<times> string \<Rightarrow> string \<Rightarrow> state \<Rightarrow> error + state" where
  "write_text path content s =
     (if fst path \<in> dirs s then Inr (s\<lparr>files := (files s)(path \<mapsto> content)\<rparr>)
      else Inl OSError)"

text \<open>
  \<^verbatim>\<open>submit(iens, executable, *args, name, runpath)\<close>; \<open>p\<close> is what the \<^verbatim>\<open>bsub\<close> process
  hands back. The result is the exception raised, if any, and the state left behind. The
  file is written before the two maps are assigned, so a write that raises leaves the
  maps as they were.
\<close>

definition submit ::
  "int \<Rightarrow> string \<Rightarrow> string list \<Rightarrow> string \<Rightarrow> string option \<Rightarrow> process \<Rightarrow> state
     \<Rightarrow> (error + unit) \<times> state" where
  "submit iens executable args name runpath p s =
     (let arg_queue_name =
            (case queue_name s of
               None \<Rightarrow> []
             | Some q \<Rightarrow> if q = [] then [] else [''-q'', q]);
          bsub_with_args = [bsub_cmd s] @ arg_queue_name @ [''-J'', name, executable] @ args;
          s1 = logger DEBUG (Submitting bsub_with_args) s
      in
        if returncode p \<noteq> 0 then
          (Inl (RuntimeError (stderr p)),
           logger ERROR
             (Bsub_failed bsub_with_args (returncode p)
                (if stderr p = [] then ''<empty>'' else stderr p)) s1)
        else
          (case search_submitted (stdout p) of
             None \<Rightarrow>
               (Inl (RuntimeError (''Could not understand '' @ [CHR 0x27] @ stdout p @ [CHR 0x27]
                                    @ '' from bsub'')), s1)
           | Some job_id \<Rightarrow>
               let s2 = logger INFO (Accepted iens job_id) s1 in
               (case (case runpath of
                        None \<Rightarrow> Inr s2
                      | Some rp \<Rightarrow>
                          write_text (rp, LSF_INFO_JSON_FILENAME) (json_dumps_job_id job_id) s2) of
                  Inl e \<Rightarrow> (Inl e, s2)
                | Inr s3 \<Rightarrow>
                    let s4 = s3\<lparr>jobs := (jobs s3)(job_id \<mapsto> (iens, ''PEND''))\<rparr>
                    in (Inr (), s4\<lparr>iens2jobid := (iens2jobid s4)(iens \<mapsto> job_id)\<rparr>))))"

subsection \<open>\<^verbatim>\<open>LsfDriver.kill\<close>\<close>

text \<open>
  \<^verbatim>\<open>kill(iens)\<close>; \<open>p\<close> is what the \<^verbatim>\<open>bkill\<close> process hands back. Every path of the
  source returns, so the result is the state alone. The pattern given to \<^verbatim>\<open>re.match\<close>
  is built from the job identifier; the identifiers that \<^verbatim>\<open>submit\<close> stores are strings
  of ASCII digits, for which the pattern is a literal to be found at the head of the output.
\<close>

definition kill :: "int \<Rightarrow> process \<Rightarrow> state \<Rightarrow> state" where
  "kill iens p s =
     (case iens2jobid s iens of
        None \<Rightarrow> logger ERROR (Kill_missing_jobid iens) s
      | Some job_id \<Rightarrow>
          let s1 = logger DEBUG (Killing iens job_id) s in
          if returncode p \<noteq> 0 then
            logger ERROR (Kill_failed_returncode (returncode p) (stderr p)) s1
          else if \<not> prefix (''Job <'' @ job_id @ ''> is being terminated'') (stdout p) then
            logger ERROR (Kill_failed_output (stdout p) (stderr p)) s1
          else s1)"

subsection \<open>\<^verbatim>\<open>LsfDriver.poll\<close>\<close>

text \<open>
  The body of the loop over \<^verbatim>\<open>stat.jobs.items()\<close>. The log message of a finished job
  reads \<^verbatim>\<open>self._iens2jobid[iens]\<close>, which raises when the realization has no entry; at
  that point the new state is already stored and no event has been put.
\<close>

definition poll_job :: "string \<times> any_job \<Rightarrow> state \<Rightarrow> (error + unit) \<times> state" where
  "poll_job item s =
     (case jobs s (fst item) of
        None \<Rightarrow> (Inr (), s)
      | Some (iens, old_state) \<Rightarrow>
          let new_state = job_state (snd item) in
          if old_state = new_state then (Inr (), s)
          else
            let s1 = s\<lparr>jobs := (jobs s)(fst item \<mapsto> (iens, new_state))\<rparr> in
            (case snd item of
               RunningJob _ \<Rightarrow> (Inr (), put (StartedEvent iens) (logger DEBUG (Is_running iens) s1))
             | FinishedJob _ \<Rightarrow>
                 let aborted = (new_state = ''EXIT'');
                     ev = FinishedEvent iens (if new_state = ''EXIT'' then 1 else 0) aborted
                 in
                   (case iens2jobid s1 iens of
                      None \<Rightarrow> (Inl KeyError, s1)
                    | Some lsf_id \<Rightarrow>
                        let s2 = (if aborted then logger WARNING (Has_failed iens lsf_id) s1
                                  else logger INFO (Has_succeeded iens lsf_id) s1);
                            s3 = s2\<lparr>jobs := (jobs s2)(fst item := None)\<rparr>;
                            s4 = s3\<lparr>iens2jobid := (iens2jobid s3)(iens := None)\<rparr>
                        in (Inr (), put ev s4))
             | QueuedJob _ \<Rightarrow> (Inr (), s1)))"

fun poll_jobs :: "any_job dict \<Rightarrow> state \<Rightarrow> (error + unit) \<times> state" where
  "poll_jobs [] s = (Inr (), s)"
| "poll_jobs (item # items) s =
     (case poll_job item s of
        (Inl e, s') \<Rightarrow> (Inl e, s')
      | (Inr _, s') \<Rightarrow> poll_jobs items s')"

text \<open>
  One turn of the loop of \<^verbatim>\<open>poll\<close>; \<open>p\<close> is what the \<^verbatim>\<open>bjobs\<close> process hands back
  (no process is started when no job is tracked). The loop itself never ends: it runs
  one turn after the other, until one raises.
\<close>

definition poll_cycle :: "process \<Rightarrow> state \<Rightarrow> (error + unit) \<times> state" where
  "poll_cycle p s =
     (if jobs s = Map.empty then (Inr (), s)
      else if returncode p \<noteq> 0 \<and> \<not> stderr_utf8 p then (Inl UnicodeDecodeError, s)
      else
        let s1 = (if returncode p \<noteq> 0
                  then logger WARNING (Bjobs_returncode (returncode p) (stderr p)) s
                  else s);
            parsed = parse_bjobs (stdout p);
            s2 = s1\<lparr>log := log s1 @ fst parsed\<rparr>
        in
          (case Stat (snd parsed) of
             Inl e \<Rightarrow> (Inl e, s2)
           | Inr stat_jobs \<Rightarrow>
               (case poll_jobs stat_jobs s2 of
                  (Inl e, s3) \<Rightarrow> (Inl e, s3)
                | (Inr _, s3) \<Rightarrow>
                    let missing_in_bjobs_output = dom (jobs s3) - set (map fst stat_jobs) in
                    (Inr (),
                     if missing_in_bjobs_output \<noteq> {}
                     then logger WARNING (Missing_in_bjobs missing_in_bjobs_output) s3
                     else s3))))"

subsection \<open>Runs of the driver\<close>

text \<open>
  The calls that the scheduler and the event loop make on one driver, each with what
  the backend command answers. An exception goes to the caller; the state stays as the
  call left it.
\<close>

datatype call =
    Submit int string "string list" string "string option" process
  | Kill int process
  | Poll process

fun exec :: "call \<Rightarrow> state \<Rightarrow> state" where
  "exec (Submit iens executable args name runpath p) s =
     snd (submit iens executable args name runpath p s)"
| "exec (Kill iens p) s = kill iens p s"
| "exec (Poll p) s = snd (poll_cycle p s)"

fun run :: "call list \<Rightarrow> state \<Rightarrow> state" where
  "run [] s = s"
| "run (c # cs) s = run cs (exec c s)"

subsection \<open>Notions of the specification\<close>

text \<open>A backend command that exits with code 0 and prints \<open>out\<close>.\<close>

definition answer :: "string \<Rightarrow> process" where
  "answer out = \<lparr>returncode = 0, stdout = out, stderr = [], stderr_utf8 = True\<rparr>"

fun is_kill :: "call \<Rightarrow> bool" where
  "is_kill (Kill iens p) = True"
| "is_kill c = False"

text \<open>
  The events that one entry of the validated status calls for, given the tracked jobs at
  the start of the poll cycle: none for an identifier that is not tracked or whose state
  is the last known one, \<open>StartedEvent\<close> for a change into \<^verbatim>\<open>RUN\<close>, \<open>FinishedEvent\<close>
  for a change into \<^verbatim>\<open>DONE\<close> (return code 0) or \<^verbatim>\<open>EXIT\<close> (return code 1, aborted),
  none for a change into \<^verbatim>\<open>PEND\<close>.
\<close>

definition job_event :: "state \<Rightarrow> string \<times> any_job \<Rightarrow> event list" where
  "job_event s item =
     (case jobs s (fst item) of
        None \<Rightarrow> []
      | Some (iens, old_state) \<Rightarrow>
          if old_state = job_state (snd item) then []
          else
            (case snd item of
               RunningJob st \<Rightarrow> [StartedEvent iens]
             | FinishedJob st \<Rightarrow> [FinishedEvent iens (if st = ''EXIT'' then 1 else 0) (st = ''EXIT'')]
             | QueuedJob st \<Rightarrow> []))"

text \<open>
  The entry of the job map that one entry of the validated status calls for, given the
  tracked jobs at the start of the poll cycle: none for an identifier that is not tracked,
  none for a tracked job that changes into \<^verbatim>\<open>DONE\<close> or \<^verbatim>\<open>EXIT\<close>, and otherwise the
  realization with the reported state.
\<close>

definition job_stored :: "state \<Rightarrow> string \<times> any_job \<Rightarrow> (int \<times> string) option" where
  "job_stored s item =
     (case jobs s (fst item) of
        None \<Rightarrow> None
      | Some (iens, old_state) \<Rightarrow>
          (case snd item of
             FinishedJob st \<Rightarrow> if old_state = st then Some (iens, st) else None
           | QueuedJob st \<Rightarrow> Some (iens, st)
           | RunningJob st \<Rightarrow> Some (iens, st)))"

text \<open>
  A line of the output of \<^verbatim>\<open>bjobs\<close> that reports a job: it starts with a digit, has at
  least three tokens, and the third is one of the nine states. Its entry maps the first
  token to the state.
\<close>

definition reports_job :: "string \<Rightarrow> bool" where
  "reports_job line =
     (line \<noteq> [] \<and> isdigit (hd line) \<and> length (split_ws 3 line) \<ge> 3
      \<and> split_ws 3 line ! 2 \<in> set JobState)"

definition entry :: "string \<Rightarrow> string \<times> string dict" where
  "entry line = (split_ws 3 line ! 0, [(''job_state'', split_ws 3 line ! 2)])"

text \<open>
  The two maps of the driver are inverse to each other: a tracked job belongs to the
  realization that points to it, and every realization with an identifier points to a
  tracked job of its own.
\<close>

definition mutually_inverse :: "state \<Rightarrow> bool" where
  "mutually_inverse s =
     ((\<forall>job_id iens st. jobs s job_id = Some (iens, st) \<longrightarrow> iens2jobid s iens = Some job_id)
      \<and> (\<forall>iens job_id. iens2jobid s iens = Some job_id \<longrightarrow> (\<exists>st. jobs s job_id = Some (iens, st))))"

text \<open>
  The identifier that the backend answers a call of \<^verbatim>\<open>submit\<close> with, if it accepts:
  the only identifier that the call can record.
\<close>

fun accepted_id :: "call \<Rightarrow> string option" where
  "accepted_id (Submit iens executable args name runpath p) =
     (if returncode p = 0 then search_submitted (stdout p) else None)"
| "accepted_id c = None"

text \<open>
  A run with at most one tracked attempt per realization at a time: \<^verbatim>\<open>submit\<close> is only
  called for a realization that has no identifier at that moment.
\<close>

fun one_attempt :: "call list \<Rightarrow> state \<Rightarrow> bool" where
  "one_attempt [] s = True"
| "one_attempt (Submit iens executable args name runpath p # cs) s =
     (iens2jobid s iens = None
      \<and> one_attempt cs (exec (Submit iens executable args name runpath p) s))"
| "one_attempt (c # cs) s = one_attempt cs (exec c s)"

text \<open>
  A run in which the backend never hands out an identifier that the driver still tracks.
\<close>

fun fresh_ids :: "call list \<Rightarrow> state \<Rightarrow> bool" where
  "fresh_ids [] s = True"
| "fresh_ids (c # cs) s =
     ((case accepted_id c of None \<Rightarrow> True | Some job_id \<Rightarrow> jobs s job_id = None)
      \<and> fresh_ids cs (exec c s))"

text \<open>
  A call that starts a new attempt of realization \<open>iens\<close> or under the identifier
  \<open>job_id\<close>: a \<^verbatim>\<open>submit\<close> for that realization, or one that the backend answers with
  that identifier.
\<close>

fun starts_attempt :: "int \<Rightarrow> string \<Rightarrow> call \<Rightarrow> bool" where
  "starts_attempt iens job_id (Submit i executable args name runpath p) =
     (i = iens \<or> accepted_id (Submit i executable args name runpath p) = Some job_id)"
| "starts_attempt iens job_id c = False"

text \<open>
  The text has a match of \<^verbatim>\<open>Job <([0-9]+)> is submitted to .+ queue\<close> whose group is
  \<open>n\<close>: the words of the regular expression, with no reference to how a match is found.
\<close>

definition submitted_pattern :: "string \<Rightarrow> string \<Rightarrow> bool" where
  "submitted_pattern n text =
     (\<exists>before mid after.
        text = before @ ''Job <'' @ n @ ''> is submitted to '' @ mid @ '' queue'' @ after
        \<and> n \<noteq> [] \<and> (\<forall>c \<in> set n. is_ascii_digit c)
        \<and> mid \<noteq> [] \<and> CHR 0x0A \<notin> set mid)"

text \<open>
  Two states of a driver used as concrete inputs: realization 0 was submitted and the
  backend gave it the identifier 1; then a poll cycle saw the job running.
\<close>

definition one_pending :: state where
  "one_pending =
     run [Submit 0 ''job.sh'' [] ''dummy'' None (answer ''Job <1> is submitted to normal queue'')]
       (init None ''bsub'' {})"

definition one_running :: state where
  "one_running = exec (Poll (answer ''1 user RUN'')) one_pending"

section \<open>Properties\<close>

subsection \<open>Frame lemmas of the poll cycle\<close>

lemma logger_fields:
  "jobs (logger lv m s) = jobs s" "iens2jobid (logger lv m s) = iens2jobid s"
  "event_queue (logger lv m s) = event_queue s" "files (logger lv m s) = files s"
  "queue_name (logger lv m s) = queue_name s" "bsub_cmd (logger lv m s) = bsub_cmd s"
  "log (logger lv m s) = log s @ [(lv, m)]" "dirs (logger lv m s) = dirs s"
  by (simp_all add: logger_def)

lemma put_fields:
  "jobs (put ev s) = jobs s" "iens2jobid (put ev s) = iens2jobid s"
  "event_queue (put ev s) = event_queue s @ [ev]" "files (put ev s) = files s"
  "queue_name (put ev s) = queue_name s" "bsub_cmd (put ev s) = bsub_cmd s"
  "log (put ev s) = log s" "dirs (put ev s) = dirs s"
  by (simp_all add: put_def)

lemma poll_job_untracked: "jobs s job_id = None \<Longrightarrow> poll_job (job_id, job) s = (Inr (), s)"
  by (simp add: poll_job_def)

lemma poll_job_frame:
  "poll_job item s = (r, s') \<Longrightarrow> k \<noteq> fst item \<Longrightarrow> jobs s' k = jobs s k"
  by (auto simp: poll_job_def Let_def logger_fields put_fields split: option.splits if_splits any_job.splits prod.splits)

lemma poll_job_event_queue:
  "poll_job item s = (Inr u, s') \<Longrightarrow> event_queue s' = event_queue s @ job_event s item"
  by (cases "snd item") (auto simp: poll_job_def job_event_def Let_def logger_fields put_fields split: option.splits if_splits prod.splits)

lemma poll_job_raise_event_queue:
  "poll_job item s = (Inl e, s') \<Longrightarrow> event_queue s' = event_queue s"
  by (cases "snd item") (auto simp: poll_job_def job_event_def Let_def logger_fields put_fields split: option.splits if_splits prod.splits)

lemma poll_job_iens2jobid:
  "poll_job item s = (r, s') \<Longrightarrow> iens2jobid s i = None \<Longrightarrow> iens2jobid s' i = None"
  by (cases "snd item") (auto simp: poll_job_def Let_def logger_fields put_fields split: option.splits if_splits prod.splits)

lemma poll_job_other:
  "poll_job item s = (r, s') \<Longrightarrow> files s' = files s \<and> queue_name s' = queue_name s \<and> bsub_cmd s' = bsub_cmd s"
  by (cases "snd item") (auto simp: poll_job_def Let_def logger_fields put_fields split: option.splits if_splits prod.splits)

lemma job_event_cong: "jobs s (fst item) = jobs t (fst item) \<Longrightarrow> job_event s item = job_event t item"
  by (simp add: job_event_def)

lemma poll_jobs_events:
  "distinct (map fst items) \<Longrightarrow> poll_jobs items s = (r, s') \<Longrightarrow>
     \<exists>seen. prefix seen items \<and> (r = Inr () \<longrightarrow> seen = items)
        \<and> event_queue s' = event_queue s @ concat (map (job_event s) seen)"
proof (induction items arbitrary: s)
  case Nil
  then show ?case by simp
next
  case (Cons item items)
  show ?case
  proof (cases "poll_job item s")
    case (Pair r1 s1)
    show ?thesis
    proof (cases r1)
      case (Inl e)
      with Pair Cons.prems have "s' = s1" "r = Inl e" by simp_all
      with Pair Inl have "event_queue s' = event_queue s" by (simp add: poll_job_raise_event_queue)
      then show ?thesis using \<open>r = Inl e\<close> by (intro exI[of _ "[]"]) simp
    next
      case (Inr u)
      with Pair Cons.prems have rest: "poll_jobs items s1 = (r, s')" by simp
      from Cons.prems have d: "distinct (map fst items)" by simp
      from Cons.IH[OF d rest] obtain seen where
        seen: "prefix seen items" "r = Inr () \<longrightarrow> seen = items"
          "event_queue s' = event_queue s1 @ concat (map (job_event s1) seen)" by blast
      have same: "job_event s1 x = job_event s x" if "x \<in> set items" for x
      proof -
        from Cons.prems(1) have "fst item \<notin> fst ` set items" by simp
        with that have "fst x \<noteq> fst item" by (metis imageI)
        with Pair have "jobs s1 (fst x) = jobs s (fst x)" by (rule poll_job_frame)
        then show ?thesis by (rule job_event_cong)
      qed
      from seen(1) have "set seen \<subseteq> set items" by (rule set_mono_prefix)
      with same have "map (job_event s1) seen = map (job_event s) seen" by auto
      with seen(3) Pair Inr have "event_queue s' = event_queue s @ concat (map (job_event s) (item # seen))"
        by (simp add: poll_job_event_queue)
      with seen(1,2) show ?thesis by (intro exI[of _ "item # seen"]) simp
    qed
  qed
qed

lemma poll_jobs_frame:
  "poll_jobs items s = (r, s') \<Longrightarrow> k \<notin> fst ` set items \<Longrightarrow> jobs s' k = jobs s k"
proof (induction items arbitrary: s)
  case Nil then show ?case by simp
next
  case (Cons item items)
  then show ?case
    by (cases "poll_job item s") (auto split: sum.splits dest: poll_job_frame)
qed

lemma poll_jobs_untracked:
  "poll_jobs items s = (r, s') \<Longrightarrow> jobs s k = None \<Longrightarrow> jobs s' k = None"
proof (induction items arbitrary: s)
  case Nil then show ?case by simp
next
  case (Cons item items)
  obtain r1 s1 where p: "poll_job item s = (r1, s1)" by (cases "poll_job item s")
  have "jobs s1 k = None"
  proof (cases "k = fst item")
    case True
    with Cons.prems(2) have "poll_job item s = (Inr (), s)" by (cases item) (simp add: poll_job_untracked)
    with p Cons.prems(2) show ?thesis by simp
  next
    case False
    with p Cons.prems(2) show ?thesis by (simp add: poll_job_frame)
  qed
  with p Cons show ?case by (auto split: sum.splits)
qed

lemma poll_jobs_iens2jobid:
  "poll_jobs items s = (r, s') \<Longrightarrow> iens2jobid s i = None \<Longrightarrow> iens2jobid s' i = None"
proof (induction items arbitrary: s)
  case Nil then show ?case by simp
next
  case (Cons item items)
  then show ?case
    by (cases "poll_job item s") (auto split: sum.splits dest: poll_job_iens2jobid)
qed


lemma validate_jobs_keys: "validate_jobs d = Inr js \<Longrightarrow> map fst js = map fst d"
  by (induction d arbitrary: js rule: validate_jobs.induct) (auto split: sum.splits)

lemma validate_AnyJob_states:
  "validate_AnyJob d = Inr job \<Longrightarrow>
     (job = FinishedJob ''DONE'' \<or> job = FinishedJob ''EXIT'' \<or> job = QueuedJob ''PEND''
      \<or> job = RunningJob ''RUN'')"
  by (auto simp: validate_AnyJob_def split: option.splits if_splits)

lemma validate_jobs_states:
  "validate_jobs d = Inr js \<Longrightarrow>
     \<forall>item \<in> set js. snd item = FinishedJob ''DONE'' \<or> snd item = FinishedJob ''EXIT''
      \<or> snd item = QueuedJob ''PEND'' \<or> snd item = RunningJob ''RUN''"
proof (induction d arbitrary: js rule: validate_jobs.induct)
  case 1
  then show ?case by simp
next
  case (2 job_id d rest)
  from "2.prems" obtain job js' where
    v: "validate_AnyJob d = Inr job" "validate_jobs rest = Inr js'" "js = (job_id, job) # js'"
    by (auto split: sum.splits)
  from "2.IH"[OF v(1,2)] validate_AnyJob_states[OF v(1)] v(3) show ?case by auto
qed

lemma parse_bjobs_line_distinct:
  "distinct (map fst (snd acc)) \<Longrightarrow> distinct (map fst (snd (parse_bjobs_line acc line)))"
  by (simp add: parse_bjobs_line_def Let_def distinct_update)

lemma foldl_parse_bjobs_line_distinct:
  "distinct (map fst (snd acc)) \<Longrightarrow> distinct (map fst (snd (foldl parse_bjobs_line acc ls)))"
  by (induction ls arbitrary: acc) (simp_all add: parse_bjobs_line_distinct)

lemma parse_bjobs_data_distinct: "distinct (map fst (snd (parse_bjobs_data out)))"
  by (simp add: parse_bjobs_data_def foldl_parse_bjobs_line_distinct)

lemma Stat_parse_bjobs:
  "Stat (snd (parse_bjobs out)) = validate_jobs (snd (parse_bjobs_data out))"
  by (simp add: Stat_def parse_bjobs_def)

lemma Stat_parse_bjobs_distinct:
  "Stat (snd (parse_bjobs out)) = Inr stat_jobs \<Longrightarrow> distinct (map fst stat_jobs)"
  by (simp add: Stat_parse_bjobs validate_jobs_keys parse_bjobs_data_distinct)

lemma poll_cycle_cases:
  assumes "poll_cycle p s = (r, s')"
  obtains (idle) "jobs s = Map.empty" "r = Inr ()" "s' = s"
  | (decode) "jobs s \<noteq> Map.empty" "returncode p \<noteq> 0" "\<not> stderr_utf8 p"
      "r = Inl UnicodeDecodeError" "s' = s"
  | (invalid) e where "jobs s \<noteq> Map.empty" "Stat (snd (parse_bjobs (stdout p))) = Inl e" "r = Inl e"
      "jobs s' = jobs s" "iens2jobid s' = iens2jobid s" "event_queue s' = event_queue s"
      "files s' = files s"
  | (looped) stat_jobs s2 s3 where "jobs s \<noteq> Map.empty"
      "Stat (snd (parse_bjobs (stdout p))) = Inr stat_jobs"
      "jobs s2 = jobs s" "iens2jobid s2 = iens2jobid s" "event_queue s2 = event_queue s"
      "files s2 = files s"
      "poll_jobs stat_jobs s2 = (r, s3)"
      "jobs s' = jobs s3" "iens2jobid s' = iens2jobid s3" "event_queue s' = event_queue s3"
      "files s' = files s3"
      "r = Inr () \<and> dom (jobs s3) - set (map fst stat_jobs) \<noteq> {} \<longrightarrow>
          s' = logger WARNING (Missing_in_bjobs (dom (jobs s3) - set (map fst stat_jobs))) s3"
proof -
  define s2 where "s2 =
    (if returncode p \<noteq> 0
     then logger WARNING (Bjobs_returncode (returncode p) (stderr p)) s
     else s)\<lparr>log := log (if returncode p \<noteq> 0
                 then logger WARNING (Bjobs_returncode (returncode p) (stderr p)) s
                 else s) @ fst (parse_bjobs (stdout p))\<rparr>"
  have s2: "jobs s2 = jobs s" "iens2jobid s2 = iens2jobid s" "event_queue s2 = event_queue s"
    "files s2 = files s"
    by (simp_all add: s2_def logger_fields)
  have main: "poll_cycle p s =
          (case Stat (snd (parse_bjobs (stdout p))) of
             Inl e \<Rightarrow> (Inl e, s2)
           | Inr stat_jobs \<Rightarrow>
               (case poll_jobs stat_jobs s2 of
                  (Inl e, s3) \<Rightarrow> (Inl e, s3)
                | (Inr _, s3) \<Rightarrow>
                    (Inr (),
                     if dom (jobs s3) - set (map fst stat_jobs) \<noteq> {}
                     then logger WARNING (Missing_in_bjobs (dom (jobs s3) - set (map fst stat_jobs))) s3
                     else s3)))"
    if "jobs s \<noteq> Map.empty" "\<not> (returncode p \<noteq> 0 \<and> \<not> stderr_utf8 p)"
    unfolding poll_cycle_def Let_def s2_def
    by (subst if_not_P[OF that(1)], subst if_not_P[OF that(2)], rule refl)
  show thesis
  proof (cases "jobs s = Map.empty")
    case True
    with assms show thesis by (intro idle) (simp_all add: poll_cycle_def)
  next
    case tracked: False
    show thesis
    proof (cases "returncode p \<noteq> 0 \<and> \<not> stderr_utf8 p")
      case True
      with tracked assms show thesis by (intro decode) (simp_all add: poll_cycle_def)
    next
      case False
      note eq = assms[unfolded main[OF tracked False]]
      show thesis
      proof (cases "Stat (snd (parse_bjobs (stdout p)))")
        case (Inl e)
        with eq have "r = Inl e" "s' = s2" by simp_all
        with tracked Inl s2 show thesis by (intro invalid[of e]) simp_all
      next
        case (Inr stat_jobs)
        obtain r3 s3 where l: "poll_jobs stat_jobs s2 = (r3, s3)"
          by (cases "poll_jobs stat_jobs s2")
        show thesis
        proof (cases r3)
          case (Inl e)
          with Inr l eq have "r = Inl e" "s' = s3" by simp_all
          with tracked Inr s2 l Inl show thesis
            by (intro looped[of stat_jobs s2 s3]) simp_all
        next
          case r3: (Inr u)
          with Inr l eq have r: "r = Inr ()"
            and s': "s' = (if dom (jobs s3) - set (map fst stat_jobs) \<noteq> {}
                     then logger WARNING (Missing_in_bjobs (dom (jobs s3) - set (map fst stat_jobs))) s3
                     else s3)" by simp_all
          from s' have "jobs s' = jobs s3" "iens2jobid s' = iens2jobid s3"
            "event_queue s' = event_queue s3" "files s' = files s3"
            by (simp_all add: logger_fields)
          with tracked Inr s2 l r3 r s' show thesis
            by (intro looped[of stat_jobs s2 s3]) simp_all
        qed
      qed
    qed
  qed
qed

subsection \<open>The events of a poll cycle\<close>

lemma Stat_states:
  "Stat (snd (parse_bjobs out)) = Inr stat_jobs \<Longrightarrow>
     \<forall>item \<in> set stat_jobs. snd item = FinishedJob ''DONE'' \<or> snd item = FinishedJob ''EXIT''
      \<or> snd item = QueuedJob ''PEND'' \<or> snd item = RunningJob ''RUN''"
  by (rule validate_jobs_states[of "snd (parse_bjobs_data out)"]) (simp only: Stat_parse_bjobs)

lemma job_event_idle: "jobs s = Map.empty \<Longrightarrow> job_event s item = []"
  by (simp add: job_event_def)

lemma job_event_nonempty:
  assumes "jobs s (fst item) = Some (iens, old_state)"
    and "snd item = FinishedJob ''DONE'' \<or> snd item = FinishedJob ''EXIT''
      \<or> snd item = QueuedJob ''PEND'' \<or> snd item = RunningJob ''RUN''"
  shows "job_event s item \<noteq> [] \<longleftrightarrow>
           old_state \<noteq> job_state (snd item) \<and> job_state (snd item) \<noteq> ''PEND''"
  using assms by (auto simp: job_event_def)

lemma job_event_Finished:
  assumes "FinishedEvent iens rc ab \<in> set (job_event s item)"
  shows "\<exists>old_state st. jobs s (fst item) = Some (iens, old_state) \<and> snd item = FinishedJob st
            \<and> ab = (st = ''EXIT'') \<and> rc = (if ab then 1 else 0)"
proof (cases "jobs s (fst item)")
  case None
  with assms show ?thesis by (simp add: job_event_def)
next
  case (Some v)
  obtain i old_state where v: "v = (i, old_state)" by (cases v)
  show ?thesis
  proof (cases "snd item")
    case (FinishedJob st)
    with assms Some v have "i = iens" "ab = (st = ''EXIT'')" "rc = (if ab then 1 else 0)"
      by (auto simp: job_event_def split: if_splits)
    with Some v FinishedJob show ?thesis by simp
  next
    case (QueuedJob st)
    with assms Some v show ?thesis by (simp add: job_event_def split: if_splits)
  next
    case (RunningJob st)
    with assms Some v show ?thesis by (simp add: job_event_def split: if_splits)
  qed
qed

lemma job_stored_cong:
  "jobs s (fst item) = jobs t (fst item) \<Longrightarrow> job_stored s item = job_stored t item"
  by (simp add: job_stored_def)

lemma poll_job_stored:
  assumes "poll_job item s = (Inr u, s')"
  shows "jobs s' (fst item) = job_stored s item"
proof (cases "jobs s (fst item)")
  case None
  with assms show ?thesis by (simp add: poll_job_def job_stored_def)
next
  case (Some v)
  obtain i old_state where v: "v = (i, old_state)" by (cases v)
  show ?thesis
  proof (cases "snd item")
    case (FinishedJob st)
    with assms Some v show ?thesis
      by (auto simp: poll_job_def job_stored_def Let_def logger_fields put_fields
            split: if_splits option.splits)
  next
    case (QueuedJob st)
    with assms Some v show ?thesis
      by (auto simp: poll_job_def job_stored_def Let_def logger_fields put_fields
            split: if_splits)
  next
    case (RunningJob st)
    with assms Some v show ?thesis
      by (auto simp: poll_job_def job_stored_def Let_def logger_fields put_fields
            split: if_splits)
  qed
qed

lemma poll_jobs_stored:
  "distinct (map fst items) \<Longrightarrow> poll_jobs items s = (Inr u, s') \<Longrightarrow>
     \<forall>item \<in> set items. jobs s' (fst item) = job_stored s item"
proof (induction items arbitrary: s)
  case Nil
  then show ?case by simp
next
  case (Cons item items)
  obtain r1 s1 where p: "poll_job item s = (r1, s1)" by (cases "poll_job item s")
  with Cons.prems(2) obtain u1 where r1: "r1 = Inr u1" by (cases r1) auto
  with p Cons.prems(2) have rest: "poll_jobs items s1 = (Inr u, s')" by simp
  from Cons.prems(1) have d: "distinct (map fst items)" and fresh: "fst item \<notin> fst ` set items"
    by simp_all
  from poll_jobs_frame[OF rest fresh] poll_job_stored[OF p[unfolded r1]]
  have head: "jobs s' (fst item) = job_stored s item" by simp
  have tail: "jobs s' (fst x) = job_stored s x" if x: "x \<in> set items" for x
  proof -
    from x fresh have "fst x \<noteq> fst item" by (metis imageI)
    with p have "jobs s1 (fst x) = jobs s (fst x)" by (rule poll_job_frame)
    then have "job_stored s1 x = job_stored s x" by (rule job_stored_cong)
    with Cons.IH[OF d rest] x show ?thesis by simp
  qed
  from head tail show ?case by simp
qed

lemma poll_job_iens:
  assumes "poll_job item s = (Inr u, s')"
  shows "iens2jobid s' i =
           (if \<exists>rc ab. FinishedEvent i rc ab \<in> set (job_event s item) then None
            else iens2jobid s i)"
proof (cases "jobs s (fst item)")
  case None
  with assms show ?thesis by (simp add: poll_job_def job_event_def)
next
  case (Some v)
  obtain i' old_state where v: "v = (i', old_state)" by (cases v)
  show ?thesis
  proof (cases "snd item")
    case (FinishedJob st)
    with assms Some v show ?thesis
      by (auto simp: poll_job_def job_event_def Let_def logger_fields put_fields
            split: if_splits option.splits)
  next
    case (QueuedJob st)
    with assms Some v show ?thesis
      by (auto simp: poll_job_def job_event_def Let_def logger_fields put_fields
            split: if_splits)
  next
    case (RunningJob st)
    with assms Some v show ?thesis
      by (auto simp: poll_job_def job_event_def Let_def logger_fields put_fields
            split: if_splits)
  qed
qed

lemma poll_jobs_iens:
  "distinct (map fst items) \<Longrightarrow> poll_jobs items s = (Inr u, s') \<Longrightarrow>
     iens2jobid s' i =
       (if \<exists>item \<in> set items. \<exists>rc ab. FinishedEvent i rc ab \<in> set (job_event s item)
        then None else iens2jobid s i)"
proof (induction items arbitrary: s)
  case Nil
  then show ?case by simp
next
  case (Cons item items)
  obtain r1 s1 where p: "poll_job item s = (r1, s1)" by (cases "poll_job item s")
  with Cons.prems(2) obtain u1 where r1: "r1 = Inr u1" by (cases r1) auto
  with p Cons.prems(2) have rest: "poll_jobs items s1 = (Inr u, s')" by simp
  from Cons.prems(1) have d: "distinct (map fst items)" and fresh: "fst item \<notin> fst ` set items"
    by simp_all
  have same: "job_event s1 x = job_event s x" if x: "x \<in> set items" for x
  proof -
    from x fresh have "fst x \<noteq> fst item" by (metis imageI)
    with p have "jobs s1 (fst x) = jobs s (fst x)" by (rule poll_job_frame)
    then show ?thesis by (rule job_event_cong)
  qed
  then have ex: "(\<exists>x \<in> set items. \<exists>rc ab. FinishedEvent i rc ab \<in> set (job_event s1 x))
      = (\<exists>x \<in> set items. \<exists>rc ab. FinishedEvent i rc ab \<in> set (job_event s x))"
    by auto
  from Cons.IH[OF d rest] ex poll_job_iens[OF p[unfolded r1], of i]
  show ?case by auto
qed

lemma poll_jobs_files: "poll_jobs items s = (r, s') \<Longrightarrow> files s' = files s"
proof (induction items arbitrary: s)
  case Nil
  then show ?case by simp
next
  case (Cons item items)
  then show ?case
    by (cases "poll_job item s") (auto split: sum.splits dest: poll_job_other)
qed

subsection \<open>What is forgotten stays forgotten; the two maps stay inverse\<close>

lemma poll_job_finished_forgets:
  assumes "poll_job (job_id, job) s = (r, s')"
    and "event_queue s' = event_queue s @ [FinishedEvent iens rc ab]"
  shows "jobs s' job_id = None \<and> iens2jobid s' iens = None"
proof (cases "jobs s job_id")
  case None
  with assms show ?thesis by (simp add: poll_job_def)
next
  case (Some v)
  obtain i old_state where v: "v = (i, old_state)" by (cases v)
  show ?thesis
  proof (cases job)
    case (FinishedJob st)
    with assms Some v show ?thesis
      by (auto simp: poll_job_def Let_def logger_fields put_fields split: if_splits option.splits)
  next
    case (QueuedJob st)
    with assms Some v show ?thesis
      by (auto simp: poll_job_def Let_def logger_fields put_fields split: if_splits option.splits)
  next
    case (RunningJob st)
    with assms Some v show ?thesis
      by (auto simp: poll_job_def Let_def logger_fields put_fields split: if_splits option.splits)
  qed
qed

lemma poll_cycle_untracked:
  assumes "poll_cycle p s = (r, s')" and "jobs s k = None"
  shows "jobs s' k = None"
  using assms(1)
proof (cases rule: poll_cycle_cases)
  case (looped stat_jobs s2 s3)
  from looped(7) have "jobs s3 k = None"
    by (rule poll_jobs_untracked) (simp add: looped(3) assms(2))
  with looped show ?thesis by simp
qed (simp_all add: assms(2))

lemma poll_cycle_iens2jobid:
  assumes "poll_cycle p s = (r, s')" and "iens2jobid s i = None"
  shows "iens2jobid s' i = None"
  using assms(1)
proof (cases rule: poll_cycle_cases)
  case (looped stat_jobs s2 s3)
  from looped(7) have "iens2jobid s3 i = None"
    by (rule poll_jobs_iens2jobid) (simp add: looped(4) assms(2))
  with looped show ?thesis by simp
qed (simp_all add: assms(2))

lemma kill_fields:
  "jobs (kill iens p s) = jobs s" "iens2jobid (kill iens p s) = iens2jobid s"
  "event_queue (kill iens p s) = event_queue s" "files (kill iens p s) = files s"
  by (simp_all add: kill_def logger_fields Let_def split: option.splits)

lemma submit_maps:
  "(jobs (snd (submit iens executable args name runpath p s)) = jobs s
      \<and> iens2jobid (snd (submit iens executable args name runpath p s)) = iens2jobid s)
   \<or> (\<exists>job_id. accepted_id (Submit iens executable args name runpath p) = Some job_id
      \<and> jobs (snd (submit iens executable args name runpath p s))
          = (jobs s)(job_id \<mapsto> (iens, ''PEND''))
      \<and> iens2jobid (snd (submit iens executable args name runpath p s))
          = (iens2jobid s)(iens \<mapsto> job_id))"
  by (simp add: submit_def write_text_def logger_fields Let_def split: option.splits)

lemma exec_keeps_forgotten:
  assumes "\<not> starts_attempt iens job_id c" and "jobs s job_id = None" and "iens2jobid s iens = None"
  shows "jobs (exec c s) job_id = None \<and> iens2jobid (exec c s) iens = None"
proof (cases c)
  case (Submit i executable args name runpath p)
  from assms(1) Submit have i: "i \<noteq> iens"
    and j: "accepted_id (Submit i executable args name runpath p) \<noteq> Some job_id"
    by simp_all
  from submit_maps[of i executable args name runpath p s] i j assms(2,3) Submit
  show ?thesis by auto
next
  case (Kill i p)
  with assms show ?thesis by (simp add: kill_fields)
next
  case (Poll p)
  obtain r s' where c: "poll_cycle p s = (r, s')" by (cases "poll_cycle p s")
  with Poll assms poll_cycle_untracked[OF c assms(2)] poll_cycle_iens2jobid[OF c assms(3)]
  show ?thesis by simp
qed

lemma run_keeps_forgotten:
  "\<forall>c \<in> set cs. \<not> starts_attempt iens job_id c \<Longrightarrow> jobs s job_id = None \<Longrightarrow>
     iens2jobid s iens = None \<Longrightarrow>
     jobs (run cs s) job_id = None \<and> iens2jobid (run cs s) iens = None"
proof (induction cs arbitrary: s)
  case Nil
  then show ?case by simp
next
  case (Cons c cs)
  from Cons.prems have "\<not> starts_attempt iens job_id c" by simp
  from exec_keeps_forgotten[OF this Cons.prems(2,3)] Cons.prems(1) Cons.IH[of "exec c s"]
  show ?case by simp
qed

lemma mutually_inverse_cong:
  "jobs s = jobs t \<Longrightarrow> iens2jobid s = iens2jobid t \<Longrightarrow> mutually_inverse s = mutually_inverse t"
  by (simp add: mutually_inverse_def)

lemma mutually_inverseI:
  assumes "\<And>job_id iens st. jobs s job_id = Some (iens, st) \<Longrightarrow> iens2jobid s iens = Some job_id"
    and "\<And>iens job_id. iens2jobid s iens = Some job_id \<Longrightarrow> \<exists>st. jobs s job_id = Some (iens, st)"
  shows "mutually_inverse s"
  unfolding mutually_inverse_def using assms by blast

lemma mutually_inverse_jobs:
  "mutually_inverse s \<Longrightarrow> jobs s job_id = Some (iens, st) \<Longrightarrow> iens2jobid s iens = Some job_id"
  unfolding mutually_inverse_def by blast

lemma mutually_inverse_iens:
  "mutually_inverse s \<Longrightarrow> iens2jobid s iens = Some job_id \<Longrightarrow> \<exists>st. jobs s job_id = Some (iens, st)"
  unfolding mutually_inverse_def by blast

lemma inverse_restate:
  assumes inv: "mutually_inverse s" and k: "jobs s k = Some (i, old_state)"
    and t: "jobs t = (jobs s)(k \<mapsto> (i, st))" "iens2jobid t = iens2jobid s"
  shows "mutually_inverse t"
proof (rule mutually_inverseI)
  fix job_id iens st'
  assume a: "jobs t job_id = Some (iens, st')"
  show "iens2jobid t iens = Some job_id"
  proof (cases "job_id = k")
    case True
    with a t(1) have "iens = i" by simp
    with True t(2) mutually_inverse_jobs[OF inv k] show ?thesis by simp
  next
    case False
    with a t(1) have "jobs s job_id = Some (iens, st')" by simp
    with t(2) mutually_inverse_jobs[OF inv] show ?thesis by simp
  qed
next
  fix iens job_id
  assume "iens2jobid t iens = Some job_id"
  with t(2) have "iens2jobid s iens = Some job_id" by simp
  from mutually_inverse_iens[OF inv this] obtain st' where j: "jobs s job_id = Some (iens, st')"
    by blast
  show "\<exists>st. jobs t job_id = Some (iens, st)"
  proof (cases "job_id = k")
    case True
    with j k have "iens = i" by simp
    with True t(1) show ?thesis by simp
  next
    case False
    with j t(1) show ?thesis by simp
  qed
qed

lemma inverse_forget:
  assumes inv: "mutually_inverse s" and k: "jobs s k = Some (i, old_state)"
    and t: "jobs t = (jobs s)(k := None)" "iens2jobid t = (iens2jobid s)(i := None)"
  shows "mutually_inverse t"
proof (rule mutually_inverseI)
  fix job_id iens st'
  assume a: "jobs t job_id = Some (iens, st')"
  with t(1) have ne: "job_id \<noteq> k" and j: "jobs s job_id = Some (iens, st')"
    by (auto split: if_splits)
  from mutually_inverse_jobs[OF inv j] have "iens2jobid s iens = Some job_id" .
  moreover from mutually_inverse_jobs[OF inv k] have "iens2jobid s i = Some k" .
  ultimately have "iens \<noteq> i" using ne by auto
  with \<open>iens2jobid s iens = Some job_id\<close> t(2) show "iens2jobid t iens = Some job_id" by simp
next
  fix iens job_id
  assume a: "iens2jobid t iens = Some job_id"
  with t(2) have ne: "iens \<noteq> i" and j: "iens2jobid s iens = Some job_id"
    by (auto split: if_splits)
  from mutually_inverse_iens[OF inv j] obtain st' where st': "jobs s job_id = Some (iens, st')"
    by blast
  with k ne have "job_id \<noteq> k" by auto
  with st' t(1) show "\<exists>st. jobs t job_id = Some (iens, st)" by simp
qed

lemma inverse_record:
  assumes inv: "mutually_inverse s" and i: "iens2jobid s i = None" and k: "jobs s k = None"
    and t: "jobs t = (jobs s)(k \<mapsto> (i, st))" "iens2jobid t = (iens2jobid s)(i \<mapsto> k)"
  shows "mutually_inverse t"
proof (rule mutually_inverseI)
  fix job_id iens st'
  assume a: "jobs t job_id = Some (iens, st')"
  show "iens2jobid t iens = Some job_id"
  proof (cases "job_id = k")
    case True
    with a t show ?thesis by simp
  next
    case False
    with a t(1) have j: "jobs s job_id = Some (iens, st')" by simp
    from mutually_inverse_jobs[OF inv j] have "iens2jobid s iens = Some job_id" .
    with i have "iens \<noteq> i" by auto
    with \<open>iens2jobid s iens = Some job_id\<close> t(2) show ?thesis by simp
  qed
next
  fix iens job_id
  assume a: "iens2jobid t iens = Some job_id"
  show "\<exists>st. jobs t job_id = Some (iens, st)"
  proof (cases "iens = i")
    case True
    with a t show ?thesis by simp
  next
    case False
    with a t(2) have j: "iens2jobid s iens = Some job_id" by simp
    from mutually_inverse_iens[OF inv j] obtain st' where st': "jobs s job_id = Some (iens, st')"
      by blast
    with k have "job_id \<noteq> k" by auto
    with st' t(1) show ?thesis by simp
  qed
qed

lemma poll_job_inverse:
  assumes "mutually_inverse s" and "poll_job item s = (r, s')"
  shows "mutually_inverse s'"
proof (cases "jobs s (fst item)")
  case None
  with assms show ?thesis by (simp add: poll_job_def)
next
  case (Some v)
  obtain i old_state where v: "v = (i, old_state)" by (cases v)
  with Some have k: "jobs s (fst item) = Some (i, old_state)" by simp
  from mutually_inverse_jobs[OF assms(1) k] have i: "iens2jobid s i = Some (fst item)" .
  show ?thesis
  proof (cases "old_state = job_state (snd item)")
    case True
    with assms k show ?thesis by (simp add: poll_job_def)
  next
    case False
    show ?thesis
    proof (cases "snd item")
      case (FinishedJob st)
      with assms(2) k False i have
        "jobs s' = (jobs s)(fst item := None)" "iens2jobid s' = (iens2jobid s)(i := None)"
        by (auto simp: poll_job_def Let_def logger_fields put_fields split: if_splits)
      with assms(1) k show ?thesis by (rule inverse_forget)
    next
      case (QueuedJob st)
      with assms(2) k False have
        "jobs s' = (jobs s)(fst item \<mapsto> (i, st))" "iens2jobid s' = iens2jobid s"
        by (auto simp: poll_job_def Let_def)
      with assms(1) k show ?thesis by (rule inverse_restate)
    next
      case (RunningJob st)
      with assms(2) k False have
        "jobs s' = (jobs s)(fst item \<mapsto> (i, st))" "iens2jobid s' = iens2jobid s"
        by (auto simp: poll_job_def Let_def logger_fields put_fields)
      with assms(1) k show ?thesis by (rule inverse_restate)
    qed
  qed
qed

lemma poll_jobs_inverse:
  "mutually_inverse s \<Longrightarrow> poll_jobs items s = (r, s') \<Longrightarrow> mutually_inverse s'"
proof (induction items arbitrary: s)
  case Nil
  then show ?case by simp
next
  case (Cons item items)
  obtain r1 s1 where p: "poll_job item s = (r1, s1)" by (cases "poll_job item s")
  with Cons.prems(1) have "mutually_inverse s1" by (rule poll_job_inverse)
  with p Cons show ?case by (auto split: sum.splits)
qed

lemma poll_cycle_inverse:
  assumes "mutually_inverse s" and "poll_cycle p s = (r, s')"
  shows "mutually_inverse s'"
  using assms(2)
proof (cases rule: poll_cycle_cases)
  case idle
  with assms(1) show ?thesis by simp
next
  case decode
  with assms(1) show ?thesis by simp
next
  case (invalid e)
  with assms(1) mutually_inverse_cong[of s' s] show ?thesis by simp
next
  case (looped stat_jobs s2 s3)
  from looped(3,4) assms(1) have "mutually_inverse s2"
    using mutually_inverse_cong[of s2 s] by simp
  then have "mutually_inverse s3" using looped(7) by (rule poll_jobs_inverse)
  with looped(8,9) show ?thesis using mutually_inverse_cong[of s' s3] by simp
qed

lemma kill_inverse: "mutually_inverse s \<Longrightarrow> mutually_inverse (kill iens p s)"
  using mutually_inverse_cong[of "kill iens p s" s] by (simp add: kill_fields)

lemma submit_inverse:
  assumes "mutually_inverse s" and "iens2jobid s iens = None"
    and "case accepted_id (Submit iens executable args name runpath p) of
           None \<Rightarrow> True | Some job_id \<Rightarrow> jobs s job_id = None"
  shows "mutually_inverse (snd (submit iens executable args name runpath p s))"
  using submit_maps[of iens executable args name runpath p s]
proof (elim disjE conjE exE)
  assume "jobs (snd (submit iens executable args name runpath p s)) = jobs s"
    "iens2jobid (snd (submit iens executable args name runpath p s)) = iens2jobid s"
  with assms(1) mutually_inverse_cong[of "snd (submit iens executable args name runpath p s)" s]
  show ?thesis by simp
next
  fix job_id
  assume a: "accepted_id (Submit iens executable args name runpath p) = Some job_id"
    and m: "jobs (snd (submit iens executable args name runpath p s))
              = (jobs s)(job_id \<mapsto> (iens, ''PEND''))"
      "iens2jobid (snd (submit iens executable args name runpath p s))
              = (iens2jobid s)(iens \<mapsto> job_id)"
  from a assms(3) have fresh: "jobs s job_id = None" by simp
  from assms(1,2) fresh m show ?thesis by (rule inverse_record)
qed

lemma run_inverse:
  "one_attempt cs s \<Longrightarrow> fresh_ids cs s \<Longrightarrow> mutually_inverse s \<Longrightarrow> mutually_inverse (run cs s)"
proof (induction cs arbitrary: s)
  case Nil
  then show ?case by simp
next
  case (Cons c cs)
  have step: "mutually_inverse (exec c s)"
  proof (cases c)
    case (Submit iens executable args name runpath p)
    with Cons.prems show ?thesis
      by (simp add: submit_inverse del: accepted_id.simps)
  next
    case (Kill iens p)
    with Cons.prems show ?thesis by (simp add: kill_inverse)
  next
    case (Poll p)
    obtain r s' where "poll_cycle p s = (r, s')" by (cases "poll_cycle p s")
    with Poll Cons.prems(3) poll_cycle_inverse[of s p r s'] show ?thesis by simp
  qed
  have "one_attempt cs (exec c s)" using Cons.prems(1) by (cases c) simp_all
  moreover have "fresh_ids cs (exec c s)" using Cons.prems(2) by simp
  ultimately show ?case using Cons.IH step by simp
qed

subsection \<open>The entries of \<^verbatim>\<open>parse_bjobs\<close>\<close>

lemma split_ws_nonempty: "t \<in> set (split_ws n s) \<Longrightarrow> t \<noteq> []"
proof (induction n arbitrary: s)
  case 0
  then show ?case by (auto simp: Let_def split: if_splits)
next
  case (Suc n)
  let ?r = "dropWhile isspace s"
  show ?case
  proof (cases "?r = []")
    case True
    with Suc.prems show ?thesis by (simp add: Let_def)
  next
    case False
    then have "\<not> isspace (hd ?r)" by (simp add: hd_dropWhile)
    with False have "takeWhile (\<lambda>c. \<not> isspace c) ?r \<noteq> []"
      by (cases ?r) auto
    moreover from False have "split_ws (Suc n) s =
        takeWhile (\<lambda>c. \<not> isspace c) ?r # split_ws n (dropWhile (\<lambda>c. \<not> isspace c) ?r)"
      by (simp add: Let_def)
    with Suc.prems have "t = takeWhile (\<lambda>c. \<not> isspace c) ?r
        \<or> t \<in> set (split_ws n (dropWhile (\<lambda>c. \<not> isspace c) ?r))" by simp
    ultimately show ?thesis
      using Suc.IH[of "dropWhile (\<lambda>c. \<not> isspace c) ?r"] by auto
  qed
qed

lemma parse_bjobs_line_data:
  "snd (parse_bjobs_line acc line) =
     (if reports_job line then AList.update (fst (entry line)) (snd (entry line)) (snd acc)
      else snd acc)"
proof (cases "line \<noteq> [] \<and> isdigit (hd line) \<and> length (split_ws 3 line) \<ge> 3")
  case True
  then have "split_ws 3 line ! 0 \<in> set (split_ws 3 line)" "split_ws 3 line ! 2 \<in> set (split_ws 3 line)"
    by (auto intro!: nth_mem)
  then have "split_ws 3 line ! 0 \<noteq> []" "split_ws 3 line ! 2 \<noteq> []"
    by (simp_all only: split_ws_nonempty not_False_eq_True)
  with True show ?thesis
    by (simp add: parse_bjobs_line_def reports_job_def entry_def Let_def)
next
  case False
  then show ?thesis
    by (auto simp: parse_bjobs_line_def reports_job_def Let_def)
qed

lemma foldl_parse_bjobs_line_data:
  "snd (foldl parse_bjobs_line acc ls) =
     foldl (\<lambda>d e. AList.update (fst e) (snd e) d) (snd acc) (map entry (filter reports_job ls))"
  by (induction ls arbitrary: acc) (simp_all add: parse_bjobs_line_data)

lemma map_of_foldl_update:
  "map_of (foldl (\<lambda>d e. AList.update (fst e) (snd e) d) d es) = map_of (rev es @ d)"
proof (induction es arbitrary: d)
  case Nil
  then show ?case by simp
next
  case (Cons e es)
  have "map_of (rev es @ AList.update (fst e) (snd e) d) = map_of (rev es @ e # d)"
    by (cases e) (simp add: update_conv')
  with Cons.IH[of "AList.update (fst e) (snd e) d"] show ?case by simp
qed

lemma distinct_foldl_update:
  "distinct (map fst d) \<Longrightarrow>
     distinct (map fst (foldl (\<lambda>d e. AList.update (fst e) (snd e) d) d es))"
  by (induction es arbitrary: d) (simp_all add: distinct_update)

lemma update_new_key: "k \<notin> fst ` set d \<Longrightarrow> AList.update k v d = d @ [(k, v)]"
  by (induction d) auto

lemma foldl_update_distinct:
  "distinct (map fst (d @ es)) \<Longrightarrow>
     foldl (\<lambda>d e. AList.update (fst e) (snd e) d) d es = d @ es"
proof (induction es arbitrary: d)
  case Nil
  then show ?case by simp
next
  case (Cons e es)
  from Cons.prems have "fst e \<notin> fst ` set d" by auto
  then have u: "AList.update (fst e) (snd e) d = d @ [e]" by (simp add: update_new_key)
  from Cons.prems have "distinct (map fst ((d @ [e]) @ es))" by simp
  from Cons.IH[OF this] u show ?case by simp
qed

subsection \<open>The search for the job identifier finds the matches of the pattern\<close>

lemma strip_prefix_Some: "strip_prefix p s = Some r \<longleftrightarrow> s = p @ r"
  by (induction p s rule: strip_prefix.induct) auto

lemma strip_prefix_append: "strip_prefix p (p @ r) = Some r"
  by (simp add: strip_prefix_Some)

lemma occurs_iff: "occurs pat s \<longleftrightarrow> (\<exists>a b. s = a @ pat @ b)"
proof (induction s)
  case Nil
  then show ?case by auto
next
  case (Cons c cs)
  show ?case
  proof
    assume "occurs pat (c # cs)"
    then consider "prefix pat (c # cs)" | "occurs pat cs" by auto
    then show "\<exists>a b. c # cs = a @ pat @ b"
    proof cases
      case 1
      then obtain b where "c # cs = pat @ b" by (auto simp: prefix_def)
      then have "c # cs = [] @ pat @ b" by simp
      then show ?thesis by blast
    next
      case 2
      with Cons.IH obtain a b where "cs = a @ pat @ b" by blast
      then have "c # cs = (c # a) @ pat @ b" by simp
      then show ?thesis by blast
    qed
  next
    assume "\<exists>a b. c # cs = a @ pat @ b"
    then obtain a b where ab: "c # cs = a @ pat @ b" by blast
    show "occurs pat (c # cs)"
    proof (cases a)
      case Nil
      with ab have "prefix pat (c # cs)" by (simp add: prefix_def)
      then show ?thesis by simp
    next
      case (Cons x a')
      with ab have "cs = a' @ pat @ b" by simp
      with Cons.IH have "occurs pat cs" by blast
      then show ?thesis by simp
    qed
  qed
qed

lemma not_digit_gt: "\<not> is_ascii_digit CHR ''>''"
  by (simp add: is_ascii_digit_def)

lemma match_submitted_sound:
  assumes "match_submitted s = Some n"
  shows "\<exists>mid after. s = ''Job <'' @ n @ ''> is submitted to '' @ mid @ '' queue'' @ after
           \<and> n \<noteq> [] \<and> (\<forall>c \<in> set n. is_ascii_digit c) \<and> mid \<noteq> [] \<and> CHR 0x0A \<notin> set mid"
proof -
  from assms obtain r where r: "strip_prefix ''Job <'' s = Some r"
    by (auto simp: match_submitted_def split: option.splits)
  with assms have ne: "takeWhile is_ascii_digit r \<noteq> []"
    by (auto simp: match_submitted_def split: option.splits if_splits)
  with assms r obtain t where t: "strip_prefix ''> is submitted to '' (dropWhile is_ascii_digit r) = Some t"
    by (auto simp: match_submitted_def split: option.splits if_splits)
  with assms r ne obtain c rest where l: "takeWhile (\<lambda>c. c \<noteq> CHR 0x0A) t = c # rest"
    by (auto simp: match_submitted_def split: option.splits if_splits list.splits)
  with assms r ne t have occ: "occurs '' queue'' rest" and n: "n = takeWhile is_ascii_digit r"
    by (auto simp: match_submitted_def split: option.splits if_splits list.splits)
  from occ obtain a b where ab: "rest = a @ '' queue'' @ b" by (auto simp: occurs_iff)
  from r have s: "s = ''Job <'' @ r" by (simp only: strip_prefix_Some)
  from t have d: "dropWhile is_ascii_digit r = ''> is submitted to '' @ t"
    by (simp only: strip_prefix_Some)
  have "r = takeWhile is_ascii_digit r @ dropWhile is_ascii_digit r" by simp
  with n d have r': "r = n @ ''> is submitted to '' @ t" by simp
  have "t = takeWhile (\<lambda>c. c \<noteq> CHR 0x0A) t @ dropWhile (\<lambda>c. c \<noteq> CHR 0x0A) t" by simp
  with l ab have t': "t = (c # a) @ '' queue'' @ (b @ dropWhile (\<lambda>c. c \<noteq> CHR 0x0A) t)" by simp
  have "set (c # a) \<subseteq> set (takeWhile (\<lambda>c. c \<noteq> CHR 0x0A) t)" using l ab by auto
  then have nl: "CHR 0x0A \<notin> set (c # a)" by (auto dest: set_takeWhileD)
  have dig: "\<forall>c \<in> set n. is_ascii_digit c" unfolding n by (auto dest: set_takeWhileD)
  from s r' t' have "s = ''Job <'' @ n @ ''> is submitted to '' @ (c # a) @ '' queue''
       @ (b @ dropWhile (\<lambda>c. c \<noteq> CHR 0x0A) t)" by simp
  with ne n dig nl show ?thesis by blast
qed

lemma match_submitted_complete:
  assumes "n \<noteq> []" and "\<forall>c \<in> set n. is_ascii_digit c" and "mid \<noteq> []" and "CHR 0x0A \<notin> set mid"
  shows "match_submitted (''Job <'' @ n @ ''> is submitted to '' @ mid @ '' queue'' @ after) = Some n"
proof -
  let ?t = "mid @ '' queue'' @ after"
  let ?r = "n @ ''> is submitted to '' @ ?t"
  have p1: "strip_prefix ''Job <'' (''Job <'' @ ?r) = Some ?r" by (rule strip_prefix_append)
  have tw: "takeWhile is_ascii_digit ?r = n"
    using assms(2) by (simp add: takeWhile_append2 not_digit_gt)
  have dw: "dropWhile is_ascii_digit ?r = ''> is submitted to '' @ ?t"
    using assms(2) by (simp add: dropWhile_append2 not_digit_gt)
  have p2: "strip_prefix ''> is submitted to '' (''> is submitted to '' @ ?t) = Some ?t"
    by (rule strip_prefix_append)
  obtain c a where mid: "mid = c # a" using assms(3) by (cases mid) auto
  from assms(4) have "\<forall>x \<in> set mid. x \<noteq> CHR 0x0A" by auto
  then have "takeWhile (\<lambda>c. c \<noteq> CHR 0x0A) ?t
      = mid @ takeWhile (\<lambda>c. c \<noteq> CHR 0x0A) ('' queue'' @ after)"
    by (simp add: takeWhile_append2)
  also have "\<dots> = c # (a @ '' queue'' @ takeWhile (\<lambda>c. c \<noteq> CHR 0x0A) after)"
    by (simp add: mid)
  finally have line: "takeWhile (\<lambda>c. c \<noteq> CHR 0x0A) ?t
      = c # (a @ '' queue'' @ takeWhile (\<lambda>c. c \<noteq> CHR 0x0A) after)" .
  have occ: "occurs '' queue'' (a @ '' queue'' @ takeWhile (\<lambda>c. c \<noteq> CHR 0x0A) after)"
    unfolding occurs_iff by blast
  show ?thesis
    unfolding match_submitted_def p1 option.case tw dw p2 line list.case
    using assms(1) occ by simp
qed

lemma search_submitted_sound: "search_submitted s = Some n \<Longrightarrow> submitted_pattern n s"
proof (induction s)
  case Nil
  then have "match_submitted [] = Some n" by simp
  from match_submitted_sound[OF this] show ?case by simp
next
  case (Cons c cs)
  show ?case
  proof (cases "match_submitted (c # cs)")
    case None
    with Cons.prems have "search_submitted cs = Some n" by simp
    with Cons.IH have "submitted_pattern n cs" by simp
    then obtain before mid after where
      "cs = before @ ''Job <'' @ n @ ''> is submitted to '' @ mid @ '' queue'' @ after"
      "n \<noteq> []" "\<forall>c \<in> set n. is_ascii_digit c" "mid \<noteq> []" "CHR 0x0A \<notin> set mid"
      unfolding submitted_pattern_def by blast
    then have "c # cs = (c # before) @ ''Job <'' @ n @ ''> is submitted to '' @ mid @ '' queue'' @ after
       \<and> n \<noteq> [] \<and> (\<forall>c \<in> set n. is_ascii_digit c) \<and> mid \<noteq> [] \<and> CHR 0x0A \<notin> set mid"
      by simp
    then show ?thesis unfolding submitted_pattern_def by blast
  next
    case (Some n')
    with Cons.prems have "n' = n" by simp
    with Some match_submitted_sound[of "c # cs" n] obtain mid after where
      "c # cs = [] @ ''Job <'' @ n @ ''> is submitted to '' @ mid @ '' queue'' @ after
       \<and> n \<noteq> [] \<and> (\<forall>c \<in> set n. is_ascii_digit c) \<and> mid \<noteq> [] \<and> CHR 0x0A \<notin> set mid"
      by auto
    then show ?thesis unfolding submitted_pattern_def by blast
  qed
qed

lemma search_submitted_finds:
  "match_submitted m = Some n \<Longrightarrow> search_submitted (before @ m) \<noteq> None"
proof (induction before)
  case Nil
  then show ?case by (cases m) simp_all
next
  case (Cons b before)
  then show ?case by (simp split: option.splits)
qed

lemma search_submitted_complete:
  assumes "submitted_pattern n s"
  shows "search_submitted s \<noteq> None"
proof -
  from assms obtain before mid after where
    s: "s = before @ ''Job <'' @ n @ ''> is submitted to '' @ mid @ '' queue'' @ after"
    and c: "n \<noteq> []" "\<forall>c \<in> set n. is_ascii_digit c" "mid \<noteq> []" "CHR 0x0A \<notin> set mid"
    unfolding submitted_pattern_def by blast
  from match_submitted_complete[OF c]
  have "match_submitted (''Job <'' @ n @ ''> is submitted to '' @ mid @ '' queue'' @ after) = Some n" .
  then show ?thesis unfolding s by (rule search_submitted_finds)
qed

lemma search_submitted_None_iff:
  "search_submitted s = None \<longleftrightarrow> (\<forall>n. \<not> submitted_pattern n s)"
proof
  assume "search_submitted s = None"
  then show "\<forall>n. \<not> submitted_pattern n s" using search_submitted_complete by blast
next
  assume none: "\<forall>n. \<not> submitted_pattern n s"
  show "search_submitted s = None"
  proof (cases "search_submitted s")
    case None
    then show ?thesis .
  next
    case (Some n)
    then have "submitted_pattern n s" by (rule search_submitted_sound)
    with none show ?thesis by blast
  qed
qed

text \<open>The identifiers that \<^verbatim>\<open>submit\<close> stores are nonempty strings of ASCII digits.\<close>

lemma search_submitted_digits:
  assumes "search_submitted s = Some n"
  shows "n \<noteq> [] \<and> (\<forall>c \<in> set n. is_ascii_digit c)"
proof -
  from assms have "submitted_pattern n s" by (rule search_submitted_sound)
  then show ?thesis unfolding submitted_pattern_def by blast
qed

subsection \<open>When a poll cycle returns\<close>

text \<open>
  A state that \<^verbatim>\<open>JobState\<close> does not know is logged as an error and the line is dropped.
  A poll cycle returns when the two maps are inverse to each other, the error stream of
  \<^verbatim>\<open>bjobs\<close> decodes if its return code is not 0, and the status validates, which it does
  when every reported state is one of \<^verbatim>\<open>DONE\<close>, \<^verbatim>\<open>EXIT\<close>, \<^verbatim>\<open>PEND\<close> and \<^verbatim>\<open>RUN\<close>. In a cycle
  that returns, a tracked identifier that the status does not have keeps its entry, and
  the last log record is the warning that names it.
\<close>

lemma unknown_state_is_logged:
  assumes "line \<noteq> []" and "isdigit (hd line)" and "length (split_ws 3 line) \<ge> 3"
    and "split_ws 3 line ! 2 \<notin> set JobState"
  shows "parse_bjobs_line acc line =
           (fst acc @ [(ERROR, Unknown_state (split_ws 3 line ! 2) (split_ws 3 line ! 0))], snd acc)"
proof -
  from assms(3) have "split_ws 3 line ! 0 \<in> set (split_ws 3 line)"
    "split_ws 3 line ! 2 \<in> set (split_ws 3 line)"
    by (auto intro!: nth_mem)
  then have "split_ws 3 line ! 0 \<noteq> []" "split_ws 3 line ! 2 \<noteq> []"
    by (simp_all only: split_ws_nonempty not_False_eq_True)
  with assms show ?thesis by (simp add: parse_bjobs_line_def Let_def)
qed

lemma set_update_subset: "set (AList.update k v d) \<subseteq> insert (k, v) (set d)"
  by (induction d) auto

lemma set_foldl_update:
  "set (foldl (\<lambda>d e. AList.update (fst e) (snd e) d) d es) \<subseteq> set d \<union> set es"
proof (induction es arbitrary: d)
  case Nil
  then show ?case by simp
next
  case (Cons e es)
  have "set (AList.update (fst e) (snd e) d) \<subseteq> insert e (set d)"
    using set_update_subset[of "fst e" "snd e" d] by simp
  with Cons.IH[of "AList.update (fst e) (snd e) d"] show ?case by auto
qed

lemma parse_bjobs_data_entries:
  "set (snd (parse_bjobs_data out)) \<subseteq> entry ` set (filter reports_job (splitlines out))"
  using set_foldl_update[of "[]" "map entry (filter reports_job (splitlines out))"]
  by (simp add: parse_bjobs_data_def foldl_parse_bjobs_line_data)

lemma validate_jobs_succeeds:
  "\<forall>item \<in> set d. \<exists>job. validate_AnyJob (snd item) = Inr job \<Longrightarrow> \<exists>js. validate_jobs d = Inr js"
proof (induction d rule: validate_jobs.induct)
  case 1
  then show ?case by simp
next
  case (2 job_id d rest)
  from "2.prems" obtain job where j: "validate_AnyJob d = Inr job" by auto
  from "2.prems" have "\<forall>item \<in> set rest. \<exists>job. validate_AnyJob (snd item) = Inr job" by simp
  from "2.IH"[OF j this] obtain js where "validate_jobs rest = Inr js" by blast
  with j show ?case by simp
qed

lemma Stat_succeeds:
  assumes "\<forall>line \<in> set (splitlines out). reports_job line \<longrightarrow>
             split_ws 3 line ! 2 \<in> {''DONE'', ''EXIT'', ''PEND'', ''RUN''}"
  shows "\<exists>stat_jobs. Stat (snd (parse_bjobs out)) = Inr stat_jobs"
proof -
  have "\<forall>item \<in> set (snd (parse_bjobs_data out)). \<exists>job. validate_AnyJob (snd item) = Inr job"
  proof
    fix item
    assume "item \<in> set (snd (parse_bjobs_data out))"
    with parse_bjobs_data_entries obtain line where
      l: "line \<in> set (splitlines out)" "reports_job line" "item = entry line" by fastforce
    with assms have "split_ws 3 line ! 2 \<in> {''DONE'', ''EXIT'', ''PEND'', ''RUN''}" by blast
    with l(3) show "\<exists>job. validate_AnyJob (snd item) = Inr job"
      by (auto simp: entry_def validate_AnyJob_def)
  qed
  then show ?thesis unfolding Stat_parse_bjobs by (rule validate_jobs_succeeds)
qed

lemma poll_job_returns:
  assumes "mutually_inverse s"
  shows "fst (poll_job item s) = Inr ()"
proof (cases "jobs s (fst item)")
  case None
  then show ?thesis by (simp add: poll_job_def)
next
  case (Some v)
  obtain i old_state where v: "v = (i, old_state)" by (cases v)
  with Some have k: "jobs s (fst item) = Some (i, old_state)" by simp
  from mutually_inverse_jobs[OF assms k] have i: "iens2jobid s i = Some (fst item)" .
  show ?thesis
    by (cases "snd item") (simp_all add: poll_job_def k i Let_def)
qed

lemma poll_jobs_returns:
  "mutually_inverse s \<Longrightarrow> fst (poll_jobs items s) = Inr ()"
proof (induction items arbitrary: s)
  case Nil
  then show ?case by simp
next
  case (Cons item items)
  obtain r1 s1 where p: "poll_job item s = (r1, s1)" by (cases "poll_job item s")
  with poll_job_returns[OF Cons.prems, of item] have r1: "r1 = Inr ()" by simp
  from Cons.prems p have "mutually_inverse s1" by (rule poll_job_inverse)
  with Cons.IH p r1 show ?case by simp
qed

lemma poll_cycle_returns:
  assumes "mutually_inverse s" and "returncode p = 0 \<or> stderr_utf8 p"
    and "Stat (snd (parse_bjobs (stdout p))) = Inr stat_jobs"
  shows "fst (poll_cycle p s) = Inr ()"
proof -
  obtain r s' where c: "poll_cycle p s = (r, s')" by (cases "poll_cycle p s")
  then have "r = Inr ()"
  proof (cases rule: poll_cycle_cases)
    case idle
    then show ?thesis by simp
  next
    case decode
    with assms(2) show ?thesis by simp
  next
    case (invalid e)
    with assms(3) show ?thesis by simp
  next
    case (looped stat_jobs' s2 s3)
    from looped(3,4) assms(1) have "mutually_inverse s2"
      using mutually_inverse_cong[of s2 s] by simp
    from poll_jobs_returns[OF this, of stat_jobs'] looped(7) show ?thesis by simp
  qed
  with c show ?thesis by simp
qed

lemma poll_cycle_missing:
  assumes "poll_cycle p s = (Inr (), s')" and "Stat (snd (parse_bjobs (stdout p))) = Inr stat_jobs"
    and "jobs s k = Some v" and "k \<notin> fst ` set stat_jobs"
  shows "jobs s' k = Some v
     \<and> (\<exists>missing. k \<in> missing \<and> log s' \<noteq> [] \<and> last (log s') = (WARNING, Missing_in_bjobs missing))"
  using assms(1)
proof (cases rule: poll_cycle_cases)
  case idle
  with assms(3) show ?thesis by simp
next
  case decode
  then show ?thesis by simp
next
  case (invalid e)
  with assms(2) show ?thesis by simp
next
  case (looped stat_jobs' s2 s3)
  with assms(2) have eq: "stat_jobs' = stat_jobs" by simp
  from poll_jobs_frame[OF looped(7)] assms(4) eq have "jobs s3 k = jobs s2 k" by simp
  with looped(3) assms(3) have k3: "jobs s3 k = Some v" by simp
  with assms(4) eq have "k \<in> dom (jobs s3) - set (map fst stat_jobs')" by auto
  moreover from this looped(12)
  have "s' = logger WARNING (Missing_in_bjobs (dom (jobs s3) - set (map fst stat_jobs'))) s3"
    by auto
  ultimately show ?thesis using k3 by (auto simp: logger_fields)
qed

subsection \<open>Concrete runs\<close>

lemma search_1: "search_submitted ''Job <1> is submitted to normal queue'' = Some ''1''"
  by code_simp

lemma one_pending_eq:
  "one_pending =
     \<lparr>queue_name = None, bsub_cmd = ''bsub'', jobs = [''1'' \<mapsto> (0, ''PEND'')],
      iens2jobid = [0 \<mapsto> ''1''], event_queue = [],
      log = [(DEBUG, Submitting [''bsub'', ''-J'', ''dummy'', ''job.sh'']), (INFO, Accepted 0 ''1'')],
      files = Map.empty, dirs = {}\<rparr>"
  by (simp add: one_pending_def answer_def init_def submit_def search_1 logger_def Let_def
        del: search_submitted.simps)

lemma parse_ZOMBI: "parse_bjobs ''1 user ZOMBI'' = ([], [(''jobs'', [(''1'', [(''job_state'', ''ZOMBI'')])])])"
  by code_simp

lemma Stat_ZOMBI: "Stat (snd (parse_bjobs ''1 user ZOMBI'')) = Inl ValidationError"
  by code_simp

lemma Stat_7_ZOMBI: "Stat (snd (parse_bjobs ''7 user ZOMBI'')) = Inl ValidationError"
  by code_simp

lemma log_7_ZOMBI: "fst (parse_bjobs ''7 user ZOMBI'') = []"
  by code_simp

lemma log_ZOMBI: "fst (parse_bjobs ''1 user ZOMBI'') = []"
  by code_simp

lemma Stat_RUN: "Stat (snd (parse_bjobs ''1 user RUN'')) = Inr [(''1'', RunningJob ''RUN'')]"
  by code_simp

lemma log_RUN: "fst (parse_bjobs ''1 user RUN'') = []"
  by code_simp

lemma Stat_EXIT: "Stat (snd (parse_bjobs ''1 user EXIT'')) = Inr [(''1'', FinishedJob ''EXIT'')]"
  by code_simp

lemma log_EXIT: "fst (parse_bjobs ''1 user EXIT'') = []"
  by code_simp

lemma Stat_PEND: "Stat (snd (parse_bjobs ''1 user PEND'')) = Inr [(''1'', QueuedJob ''PEND'')]"
  by code_simp

lemma log_PEND: "fst (parse_bjobs ''1 user PEND'') = []"
  by code_simp

lemma poll_EXIT:
  "poll_cycle (answer ''1 user EXIT'') one_pending =
     (Inr (), one_pending\<lparr>jobs := Map.empty, iens2jobid := Map.empty,
        event_queue := [FinishedEvent 0 1 True],
        log := log one_pending @ [(WARNING, Has_failed 0 ''1'')]\<rparr>)"
  by (simp add: poll_cycle_def one_pending_eq answer_def Stat_EXIT log_EXIT Let_def poll_job_def
        logger_def put_def)

lemma poll_RUN:
  "poll_cycle (answer ''1 user RUN'') one_pending =
     (Inr (), one_pending\<lparr>jobs := [''1'' \<mapsto> (0, ''RUN'')],
        event_queue := [StartedEvent 0],
        log := log one_pending @ [(DEBUG, Is_running 0)]\<rparr>)"
  by (simp add: poll_cycle_def one_pending_eq answer_def Stat_RUN log_RUN Let_def poll_job_def
        logger_def put_def)

lemma one_running_eq:
  "one_running =
     \<lparr>queue_name = None, bsub_cmd = ''bsub'', jobs = [''1'' \<mapsto> (0, ''RUN'')],
      iens2jobid = [0 \<mapsto> ''1''], event_queue = [StartedEvent 0],
      log = [(DEBUG, Submitting [''bsub'', ''-J'', ''dummy'', ''job.sh'']), (INFO, Accepted 0 ''1''),
             (DEBUG, Is_running 0)],
      files = Map.empty, dirs = {}\<rparr>"
  by (simp add: one_running_def poll_RUN) (simp add: one_pending_eq)

lemma poll_PEND:
  "poll_cycle (answer ''1 user PEND'') one_running =
     (Inr (), one_running\<lparr>jobs := [''1'' \<mapsto> (0, ''PEND'')]\<rparr>)"
  by (simp add: poll_cycle_def one_running_eq answer_def Stat_PEND log_PEND Let_def poll_job_def
        logger_def put_def)


lemma search_none: "search_submitted ''Job <> is submitted to normal queue'' = None"
  by code_simp

lemma poll_job_EXIT:
  "poll_job (''1'', FinishedJob ''EXIT'') one_pending =
     (Inr (), one_pending\<lparr>jobs := Map.empty, iens2jobid := Map.empty,
        event_queue := [FinishedEvent 0 1 True],
        log := log one_pending @ [(WARNING, Has_failed 0 ''1'')]\<rparr>)"
  by (simp add: one_pending_eq poll_job_def logger_def put_def Let_def)

lemma two_realizations_one_id:
  "run [Submit 0 ''job.sh'' [] ''dummy'' None (answer ''Job <1> is submitted to normal queue''),
        Submit 1 ''job.sh'' [] ''dummy'' None (answer ''Job <1> is submitted to normal queue'')]
     (init None ''bsub'' {})
   = \<lparr>queue_name = None, bsub_cmd = ''bsub'', jobs = [''1'' \<mapsto> (1, ''PEND'')],
      iens2jobid = [0 \<mapsto> ''1'', 1 \<mapsto> ''1''], event_queue = [],
      log = [(DEBUG, Submitting [''bsub'', ''-J'', ''dummy'', ''job.sh'']), (INFO, Accepted 0 ''1''),
             (DEBUG, Submitting [''bsub'', ''-J'', ''dummy'', ''job.sh'']), (INFO, Accepted 1 ''1'')],
      files = Map.empty, dirs = {}\<rparr>"
  by (simp add: answer_def init_def submit_def search_1 logger_def Let_def
        del: search_submitted.simps)

lemma lines_two_reports:
  "filter reports_job (splitlines (''JOBID USER STAT'' @ [CHR 0x0A] @ ''1 user RUN normal''
      @ [CHR 0x0A] @ ''2 user FOO normal'' @ [CHR 0x0A] @ ''3 user DONE''))
   = [''1 user RUN normal'', ''3 user DONE'']"
  by code_simp

lemma entries_two_reports:
  "map entry [''1 user RUN normal'', ''3 user DONE'']
   = [(''1'', [(''job_state'', ''RUN'')]), (''3'', [(''job_state'', ''DONE'')])]"
  by code_simp

subsection \<open>The claims about \<^verbatim>\<open>submit\<close> and \<^verbatim>\<open>kill\<close>\<close>




text \<open>
  Claim C10. When \<^verbatim>\<open>bsub\<close> exits with 0 and its output has no match of the pattern
  \<^verbatim>\<open>Job <N> is submitted to ... queue\<close>, \<^verbatim>\<open>submit\<close> raises and records nothing; and
  whenever \<^verbatim>\<open>submit\<close> returns, \<^verbatim>\<open>bsub\<close> exited with 0 and the identifier recorded is
  the number of a match of the pattern in the output.
\<close>

theorem submit_not_understood:
  "(returncode p = 0 \<and> (\<forall>n. \<not> submitted_pattern n (stdout p)) \<longrightarrow>
      (\<exists>s'. submit iens executable args name runpath p s =
               (Inl (RuntimeError (''Could not understand '' @ [CHR 0x27] @ stdout p @ [CHR 0x27]
                                    @ '' from bsub'')), s')
         \<and> jobs s' = jobs s \<and> iens2jobid s' = iens2jobid s \<and> files s' = files s
         \<and> event_queue s' = event_queue s))
   \<and> (\<forall>s'. submit iens executable args name runpath p s = (Inr (), s') \<longrightarrow>
        returncode p = 0
        \<and> (\<exists>job_id. submitted_pattern job_id (stdout p)
           \<and> jobs s' = (jobs s)(job_id \<mapsto> (iens, ''PEND''))
           \<and> iens2jobid s' = (iens2jobid s)(iens \<mapsto> job_id)))"
proof -
  have a: "returncode p = 0 \<and> (\<forall>n. \<not> submitted_pattern n (stdout p)) \<longrightarrow>
      (\<exists>s'. submit iens executable args name runpath p s =
               (Inl (RuntimeError (''Could not understand '' @ [CHR 0x27] @ stdout p @ [CHR 0x27]
                                    @ '' from bsub'')), s')
         \<and> jobs s' = jobs s \<and> iens2jobid s' = iens2jobid s \<and> files s' = files s
         \<and> event_queue s' = event_queue s)"
    by (simp add: search_submitted_None_iff[symmetric] submit_def logger_fields Let_def)
  have b: "\<forall>s'. submit iens executable args name runpath p s = (Inr (), s') \<longrightarrow>
        returncode p = 0
        \<and> (\<exists>job_id. submitted_pattern job_id (stdout p)
           \<and> jobs s' = (jobs s)(job_id \<mapsto> (iens, ''PEND''))
           \<and> iens2jobid s' = (iens2jobid s)(iens \<mapsto> job_id))"
  proof (intro allI impI)
    fix s'
    assume r: "submit iens executable args name runpath p s = (Inr (), s')"
    then have rc: "returncode p = 0" by (auto simp: submit_def Let_def split: if_splits)
    with r obtain job_id where j: "search_submitted (stdout p) = Some job_id"
      by (cases "search_submitted (stdout p)") (auto simp: submit_def Let_def)
    with r rc have "jobs s' = (jobs s)(job_id \<mapsto> (iens, ''PEND''))"
      "iens2jobid s' = (iens2jobid s)(iens \<mapsto> job_id)"
      by (auto simp: submit_def write_text_def Let_def logger_fields
            split: option.splits if_splits sum.splits)
    with rc search_submitted_sound[OF j]
    show "returncode p = 0
        \<and> (\<exists>job_id. submitted_pattern job_id (stdout p)
           \<and> jobs s' = (jobs s)(job_id \<mapsto> (iens, ''PEND''))
           \<and> iens2jobid s' = (iens2jobid s)(iens \<mapsto> job_id))" by blast
  qed
  from a b show ?thesis by (rule conjI)
qed

theorem submit_not_understood_witness:
  "returncode (answer ''Job <> is submitted to normal queue'') = 0
   \<and> (\<forall>n. \<not> submitted_pattern n (stdout (answer ''Job <> is submitted to normal queue'')))
   \<and> fst (submit 1 ''job.sh'' [] ''dummy'' (Some ''/run/1'')
        (answer ''Job <> is submitted to normal queue'') one_pending)
      = Inl (RuntimeError (''Could not understand '' @ [CHR 0x27]
               @ ''Job <> is submitted to normal queue'' @ [CHR 0x27] @ '' from bsub''))
   \<and> jobs (snd (submit 1 ''job.sh'' [] ''dummy'' (Some ''/run/1'')
        (answer ''Job <> is submitted to normal queue'') one_pending)) = jobs one_pending
   \<and> iens2jobid (snd (submit 1 ''job.sh'' [] ''dummy'' (Some ''/run/1'')
        (answer ''Job <> is submitted to normal queue'') one_pending)) = iens2jobid one_pending
   \<and> files (snd (submit 1 ''job.sh'' [] ''dummy'' (Some ''/run/1'')
        (answer ''Job <> is submitted to normal queue'') one_pending)) = files one_pending"
proof -
  let ?p = "answer ''Job <> is submitted to normal queue''"
  have out: "stdout ?p = ''Job <> is submitted to normal queue''" by (simp add: answer_def)
  have h: "returncode ?p = 0 \<and> (\<forall>n. \<not> submitted_pattern n (stdout ?p))"
    unfolding out search_submitted_None_iff[symmetric] search_none by (simp add: answer_def)
  from h submit_not_understood[of ?p 1 "''job.sh''" "[]" "''dummy''" "Some ''/run/1''" one_pending]
  obtain s' where "submit 1 ''job.sh'' [] ''dummy'' (Some ''/run/1'') ?p one_pending =
               (Inl (RuntimeError (''Could not understand '' @ [CHR 0x27] @ stdout ?p @ [CHR 0x27]
                                    @ '' from bsub'')), s')"
     "jobs s' = jobs one_pending" "iens2jobid s' = iens2jobid one_pending" "files s' = files one_pending"
    by blast
  with h show ?thesis unfolding out by simp
qed

text \<open>
  Claim C6. \<^verbatim>\<open>kill\<close> on a realization with no job identifier only logs an error; and
  whatever the termination command answers, \<^verbatim>\<open>kill\<close> puts no event on the queue and
  removes nothing from the two maps.
\<close>

theorem kill_keeps_tracking:
  "(iens2jobid s iens = None \<longrightarrow>
      kill iens p s = s\<lparr>log := log s @ [(ERROR, Kill_missing_jobid iens)]\<rparr>)
   \<and> event_queue (kill iens p s) = event_queue s
   \<and> jobs (kill iens p s) = jobs s
   \<and> iens2jobid (kill iens p s) = iens2jobid s"
  by (simp add: kill_def logger_fields Let_def split: option.splits)

theorem kill_keeps_tracking_witness:
  "iens2jobid one_pending 5 = None
   \<and> kill 5 (answer []) one_pending =
       one_pending\<lparr>log := log one_pending @ [(ERROR, Kill_missing_jobid 5)]\<rparr>
   \<and> event_queue (kill 0 (answer ''Job <1> is being terminated'') one_pending) = event_queue one_pending
   \<and> jobs (kill 0 (answer ''Job <1> is being terminated'') one_pending) = jobs one_pending
   \<and> iens2jobid (kill 0 (answer ''Job <1> is being terminated'') one_pending) = iens2jobid one_pending"
proof -
  have h: "iens2jobid one_pending 5 = None" by (simp add: one_pending_eq)
  from h kill_keeps_tracking[of one_pending 5 "answer []"]
    kill_keeps_tracking[of one_pending 0 "answer ''Job <1> is being terminated''"]
  show ?thesis by blast
qed

subsection \<open>The claims about the poll cycle\<close>

text \<open>
  Claim C1. A status string outside the vocabulary of the driver is logged and the job is
  left out of that poll cycle; in particular a poll cycle never raises, whatever states
  \<^verbatim>\<open>bjobs\<close> reports for the tracked jobs. The code breaks this for the five states that
  \<^verbatim>\<open>JobState\<close> knows and \<^verbatim>\<open>AnyJob\<close> does not: with job 1 tracked and \<^verbatim>\<open>bjobs\<close> printing
  \<^verbatim>\<open>1 user ZOMBI\<close>, the cycle raises the validation error of \<^verbatim>\<open>_Stat\<close>.
\<close>

theorem poll_raises_on_known_state:
  "fst (poll_cycle (answer ''1 user ZOMBI'') one_pending) = Inl ValidationError"
  by (simp add: poll_cycle_def one_pending_eq answer_def Stat_ZOMBI log_ZOMBI Let_def)

text \<open>
  Claim C2 as stated fails: a job that was never killed and exits on its own is reported
  with \<open>aborted = True\<close>.
\<close>

theorem natural_exit_is_aborted:
  "filter is_kill
     [Submit 0 ''job.sh'' [] ''dummy'' None (answer ''Job <1> is submitted to normal queue''),
      Poll (answer ''1 user EXIT'')] = []
   \<and> event_queue
       (run [Submit 0 ''job.sh'' [] ''dummy'' None (answer ''Job <1> is submitted to normal queue''),
             Poll (answer ''1 user EXIT'')] (init None ''bsub'' {})) = [FinishedEvent 0 1 True]"
  using poll_EXIT by (simp add: one_pending_def)

text \<open>
  Claim C2, as amended. Every \<open>FinishedEvent\<close> that a poll cycle puts on the queue comes
  from a tracked job that the validated status reports as finished; its \<open>aborted\<close> flag
  is true exactly when the reported state is \<^verbatim>\<open>EXIT\<close>, with return code 1, and false
  exactly when it is \<^verbatim>\<open>DONE\<close>, with return code 0. The flag says nothing about whether
  the job was killed.
\<close>

theorem finished_event_aborted:
  assumes "poll_cycle p s = (r, s')"
    and "FinishedEvent iens rc ab \<in> set (drop (length (event_queue s)) (event_queue s'))"
  shows "\<exists>stat_jobs job_id old_state.
           Stat (snd (parse_bjobs (stdout p))) = Inr stat_jobs
           \<and> jobs s job_id = Some (iens, old_state)
           \<and> (job_id, FinishedJob (if ab then ''EXIT'' else ''DONE'')) \<in> set stat_jobs
           \<and> rc = (if ab then 1 else 0)"
  using assms(1)
proof (cases rule: poll_cycle_cases)
  case idle
  with assms(2) show ?thesis by simp
next
  case decode
  with assms(2) show ?thesis by simp
next
  case (invalid e)
  with assms(2) show ?thesis by simp
next
  case (looped stat_jobs s2 s3)
  have d: "distinct (map fst stat_jobs)" using looped(2) by (rule Stat_parse_bjobs_distinct)
  from poll_jobs_events[OF d looped(7)] obtain seen where
    seen: "prefix seen stat_jobs" "event_queue s3 = event_queue s2 @ concat (map (job_event s2) seen)"
    by blast
  have "job_event s2 = job_event s"
    using looped(3) by (intro ext job_event_cong) simp
  with seen(2) looped have "drop (length (event_queue s)) (event_queue s') = concat (map (job_event s) seen)"
    by simp
  with assms(2) obtain item where item: "item \<in> set seen" "FinishedEvent iens rc ab \<in> set (job_event s item)"
    by auto
  from seen(1) have "set seen \<subseteq> set stat_jobs" by (rule set_mono_prefix)
  with item(1) have m: "item \<in> set stat_jobs" by blast
  from job_event_Finished[OF item(2)] obtain old_state st where
    f: "jobs s (fst item) = Some (iens, old_state)" "snd item = FinishedJob st"
       "ab = (st = ''EXIT'')" "rc = (if ab then 1 else 0)" by blast
  from Stat_states[OF looped(2)] m f(2) have "st = ''DONE'' \<or> st = ''EXIT''" by auto
  with f(3) have "st = (if ab then ''EXIT'' else ''DONE'')" by auto
  with f(2) have "item = (fst item, FinishedJob (if ab then ''EXIT'' else ''DONE''))"
    by (cases item) simp
  with m have "(fst item, FinishedJob (if ab then ''EXIT'' else ''DONE'')) \<in> set stat_jobs"
    by simp
  with looped(2) f(1,4) show ?thesis by blast
qed

theorem finished_event_aborted_witness:
  "FinishedEvent 0 1 True
     \<in> set (drop (length (event_queue one_pending))
              (event_queue (snd (poll_cycle (answer ''1 user EXIT'') one_pending))))
   \<and> (\<exists>stat_jobs job_id old_state.
           Stat (snd (parse_bjobs (stdout (answer ''1 user EXIT'')))) = Inr stat_jobs
           \<and> jobs one_pending job_id = Some (0, old_state)
           \<and> (job_id, FinishedJob ''EXIT'') \<in> set stat_jobs)"
proof -
  have h1: "poll_cycle (answer ''1 user EXIT'') one_pending
     = (fst (poll_cycle (answer ''1 user EXIT'') one_pending),
        snd (poll_cycle (answer ''1 user EXIT'') one_pending))" by simp
  have h2: "FinishedEvent 0 1 True
     \<in> set (drop (length (event_queue one_pending))
              (event_queue (snd (poll_cycle (answer ''1 user EXIT'') one_pending))))"
    by (simp add: poll_EXIT) (simp add: one_pending_eq)
  from finished_event_aborted[OF h1 h2] h2 show ?thesis by auto
qed

text \<open>
  Claim C3 as stated fails: a tracked job known as \<^verbatim>\<open>RUN\<close> and reported as \<^verbatim>\<open>PEND\<close> changes
  its state, and no event is put.
\<close>

theorem change_into_PEND_is_silent:
  "jobs one_running ''1'' = Some (0, ''RUN'')
   \<and> Stat (snd (parse_bjobs (stdout (answer ''1 user PEND'')))) = Inr [(''1'', QueuedJob ''PEND'')]
   \<and> fst (poll_cycle (answer ''1 user PEND'') one_running) = Inr ()
   \<and> jobs (snd (poll_cycle (answer ''1 user PEND'') one_running)) ''1'' = Some (0, ''PEND'')
   \<and> event_queue (snd (poll_cycle (answer ''1 user PEND'') one_running)) = event_queue one_running"
  by (simp add: poll_PEND Stat_PEND) (simp add: one_running_eq answer_def Stat_PEND)

text \<open>
  Claim C3, as amended. In a poll cycle that returns, the events put on the queue are
  those of \<^const>\<open>job_event\<close>, for the entries of the validated status in their order;
  every identifier has one entry; and for a tracked identifier an event is put exactly
  when the reported state differs from the last known one and is not \<^verbatim>\<open>PEND\<close>. After
  the cycle the job map holds, for every entry of the status, what \<^const>\<open>job_stored\<close>
  says: the reported state is the stored one, also after a change into \<^verbatim>\<open>PEND\<close>, and a
  job that changed into \<^verbatim>\<open>DONE\<close> or \<^verbatim>\<open>EXIT\<close> is gone. Identifiers that the status does not
  have keep their entries, a realization loses its identifier exactly when a
  \<open>FinishedEvent\<close> was put for it, and no file is written.
\<close>

theorem poll_cycle_events:
  assumes "poll_cycle p s = (Inr (), s')"
    and "Stat (snd (parse_bjobs (stdout p))) = Inr stat_jobs"
  shows "event_queue s' = event_queue s @ concat (map (job_event s) stat_jobs)
     \<and> distinct (map fst stat_jobs)
     \<and> (\<forall>item \<in> set stat_jobs. \<forall>iens old_state.
          jobs s (fst item) = Some (iens, old_state) \<longrightarrow>
            (job_event s item \<noteq> [] \<longleftrightarrow>
               old_state \<noteq> job_state (snd item) \<and> job_state (snd item) \<noteq> ''PEND''))
     \<and> (\<forall>item \<in> set stat_jobs. jobs s' (fst item) = job_stored s item)
     \<and> (\<forall>job_id. job_id \<notin> fst ` set stat_jobs \<longrightarrow> jobs s' job_id = jobs s job_id)
     \<and> (\<forall>iens. iens2jobid s' iens =
          (if \<exists>item \<in> set stat_jobs. \<exists>rc ab. FinishedEvent iens rc ab \<in> set (job_event s item)
           then None else iens2jobid s iens))
     \<and> files s' = files s"
proof -
  have d: "distinct (map fst stat_jobs)" using assms(2) by (rule Stat_parse_bjobs_distinct)
  have q: "event_queue s' = event_queue s @ concat (map (job_event s) stat_jobs)
     \<and> (\<forall>item \<in> set stat_jobs. jobs s' (fst item) = job_stored s item)
     \<and> (\<forall>job_id. job_id \<notin> fst ` set stat_jobs \<longrightarrow> jobs s' job_id = jobs s job_id)
     \<and> (\<forall>iens. iens2jobid s' iens =
          (if \<exists>item \<in> set stat_jobs. \<exists>rc ab. FinishedEvent iens rc ab \<in> set (job_event s item)
           then None else iens2jobid s iens))
     \<and> files s' = files s"
    using assms(1)
  proof (cases rule: poll_cycle_cases)
    case idle
    then show ?thesis by (simp add: job_event_idle job_stored_def)
  next
    case decode
    then show ?thesis by simp
  next
    case (invalid e)
    with assms(2) show ?thesis by simp
  next
    case (looped stat_jobs' s2 s3)
    with assms(2) have l: "poll_jobs stat_jobs s2 = (Inr (), s3)" by simp
    have ev: "job_event s2 = job_event s"
      using looped(3) by (intro ext job_event_cong) simp
    have st: "job_stored s2 = job_stored s"
      using looped(3) by (intro ext job_stored_cong) simp
    from poll_jobs_events[OF d l]
    have "event_queue s3 = event_queue s2 @ concat (map (job_event s2) stat_jobs)" by auto
    with ev looped have 1: "event_queue s' = event_queue s @ concat (map (job_event s) stat_jobs)"
      by simp
    from poll_jobs_stored[OF d l] st looped(8)
    have 2: "\<forall>item \<in> set stat_jobs. jobs s' (fst item) = job_stored s item" by simp
    have 3: "\<forall>job_id. job_id \<notin> fst ` set stat_jobs \<longrightarrow> jobs s' job_id = jobs s job_id"
      using poll_jobs_frame[OF l] looped(3,8) by simp
    have 4: "\<forall>iens. iens2jobid s' iens =
          (if \<exists>item \<in> set stat_jobs. \<exists>rc ab. FinishedEvent iens rc ab \<in> set (job_event s item)
           then None else iens2jobid s iens)"
      using poll_jobs_iens[OF d l] ev looped(4,9) by simp
    have 5: "files s' = files s" using poll_jobs_files[OF l] looped(6,11) by simp
    from 1 2 3 4 5 show ?thesis by blast
  qed
  have "\<forall>item \<in> set stat_jobs. \<forall>iens old_state.
          jobs s (fst item) = Some (iens, old_state) \<longrightarrow>
            (job_event s item \<noteq> [] \<longleftrightarrow>
               old_state \<noteq> job_state (snd item) \<and> job_state (snd item) \<noteq> ''PEND'')"
  proof (intro ballI allI impI)
    fix item iens old_state
    assume "item \<in> set stat_jobs" and t: "jobs s (fst item) = Some (iens, old_state)"
    with Stat_states[OF assms(2)]
    have "snd item = FinishedJob ''DONE'' \<or> snd item = FinishedJob ''EXIT''
      \<or> snd item = QueuedJob ''PEND'' \<or> snd item = RunningJob ''RUN''" by blast
    with t show "job_event s item \<noteq> [] \<longleftrightarrow>
               old_state \<noteq> job_state (snd item) \<and> job_state (snd item) \<noteq> ''PEND''"
      by (rule job_event_nonempty)
  qed
  with d q show ?thesis by blast
qed

theorem poll_cycle_events_witness:
  "poll_cycle (answer ''1 user RUN'') one_pending
     = (Inr (), snd (poll_cycle (answer ''1 user RUN'') one_pending))
   \<and> Stat (snd (parse_bjobs (stdout (answer ''1 user RUN'')))) = Inr [(''1'', RunningJob ''RUN'')]
   \<and> jobs one_pending ''1'' = Some (0, ''PEND'')
   \<and> event_queue (snd (poll_cycle (answer ''1 user RUN'') one_pending))
       = event_queue one_pending @ [StartedEvent 0]
   \<and> jobs (snd (poll_cycle (answer ''1 user RUN'') one_pending)) ''1'' = Some (0, ''RUN'')
   \<and> iens2jobid (snd (poll_cycle (answer ''1 user RUN'') one_pending)) 0 = Some ''1''
   \<and> poll_cycle (answer ''1 user PEND'') one_running
     = (Inr (), snd (poll_cycle (answer ''1 user PEND'') one_running))
   \<and> Stat (snd (parse_bjobs (stdout (answer ''1 user PEND'')))) = Inr [(''1'', QueuedJob ''PEND'')]
   \<and> jobs one_running ''1'' = Some (0, ''RUN'')
   \<and> event_queue (snd (poll_cycle (answer ''1 user PEND'') one_running)) = event_queue one_running
   \<and> jobs (snd (poll_cycle (answer ''1 user PEND'') one_running)) ''1'' = Some (0, ''PEND'')
   \<and> iens2jobid (snd (poll_cycle (answer ''1 user PEND'') one_running)) 0 = Some ''1''"
proof -
  have h1: "poll_cycle (answer ''1 user RUN'') one_pending
     = (Inr (), snd (poll_cycle (answer ''1 user RUN'') one_pending))"
    by (simp add: poll_RUN)
  have h2: "Stat (snd (parse_bjobs (stdout (answer ''1 user RUN'')))) = Inr [(''1'', RunningJob ''RUN'')]"
    by (simp add: answer_def Stat_RUN)
  have t: "jobs one_pending ''1'' = Some (0, ''PEND'')" "iens2jobid one_pending 0 = Some ''1''"
    by (simp_all add: one_pending_eq)
  from t have e: "job_event one_pending (''1'', RunningJob ''RUN'') = [StartedEvent 0]"
    "job_stored one_pending (''1'', RunningJob ''RUN'') = Some (0, ''RUN'')"
    by (simp_all add: job_event_def job_stored_def)
  have g1: "poll_cycle (answer ''1 user PEND'') one_running
     = (Inr (), snd (poll_cycle (answer ''1 user PEND'') one_running))"
    by (simp add: poll_PEND)
  have g2: "Stat (snd (parse_bjobs (stdout (answer ''1 user PEND'')))) = Inr [(''1'', QueuedJob ''PEND'')]"
    by (simp add: answer_def Stat_PEND)
  have r: "jobs one_running ''1'' = Some (0, ''RUN'')" "iens2jobid one_running 0 = Some ''1''"
    by (simp_all add: one_running_eq)
  from r have f: "job_event one_running (''1'', QueuedJob ''PEND'') = []"
    "job_stored one_running (''1'', QueuedJob ''PEND'') = Some (0, ''PEND'')"
    by (simp_all add: job_event_def job_stored_def)
  from poll_cycle_events[OF h1 h2] e t
  have a: "event_queue (snd (poll_cycle (answer ''1 user RUN'') one_pending))
       = event_queue one_pending @ [StartedEvent 0]"
    "jobs (snd (poll_cycle (answer ''1 user RUN'') one_pending)) ''1'' = Some (0, ''RUN'')"
    "iens2jobid (snd (poll_cycle (answer ''1 user RUN'') one_pending)) 0 = Some ''1''"
    by simp_all
  from poll_cycle_events[OF g1 g2] f r
  have b: "event_queue (snd (poll_cycle (answer ''1 user PEND'') one_running)) = event_queue one_running"
    "jobs (snd (poll_cycle (answer ''1 user PEND'') one_running)) ''1'' = Some (0, ''PEND'')"
    "iens2jobid (snd (poll_cycle (answer ''1 user PEND'') one_running)) 0 = Some ''1''"
    by simp_all
  from h1 h2 t(1) a g1 g2 r(1) b show ?thesis by blast
qed

text \<open>
  Claim C7. Identifiers in the answer of \<^verbatim>\<open>bjobs\<close> that are not tracked are skipped
  without effect, and tracked identifiers missing from the answer are logged as a warning
  and stay tracked; neither case raises. The code breaks this when such an answer carries
  one of the five states that \<^verbatim>\<open>AnyJob\<close> does not know: with job 1 tracked and \<^verbatim>\<open>bjobs\<close>
  printing \<^verbatim>\<open>7 user ZOMBI\<close>, the cycle raises, and it ends with the state it started
  from, so no warning about job 1 is logged.
\<close>

theorem poll_raises_on_untracked_id:
  "poll_cycle (answer ''7 user ZOMBI'') one_pending = (Inl ValidationError, one_pending)"
  by (simp add: poll_cycle_def one_pending_eq answer_def Stat_7_ZOMBI log_7_ZOMBI Let_def)

subsection \<open>The claims about runs of the driver\<close>

text \<open>
  Claim C5. When the step of the poll loop for the job identifier \<open>job_id\<close> puts a
  \<open>FinishedEvent\<close> for the realization \<open>iens\<close>, the identifier is gone from the job map
  and the realization from the other map at the end of that step; both stay absent through
  any later poll cycles and kills, as long as no \<^verbatim>\<open>submit\<close> starts a new attempt of the
  realization or is answered with the same identifier; and a later step of the poll loop
  for that identifier changes nothing and puts no event.
\<close>

theorem finished_job_is_forgotten:
  assumes "poll_job (job_id, job) s = (r, s')"
    and "event_queue s' = event_queue s @ [FinishedEvent iens rc ab]"
    and "\<forall>c \<in> set cs. \<not> starts_attempt iens job_id c"
  shows "jobs s' job_id = None \<and> iens2jobid s' iens = None
     \<and> jobs (run cs s') job_id = None \<and> iens2jobid (run cs s') iens = None
     \<and> (\<forall>job'. poll_job (job_id, job') (run cs s') = (Inr (), run cs s'))"
proof -
  from poll_job_finished_forgets[OF assms(1,2)]
  have now: "jobs s' job_id = None" "iens2jobid s' iens = None" by simp_all
  from run_keeps_forgotten[OF assms(3) now]
  have later: "jobs (run cs s') job_id = None" "iens2jobid (run cs s') iens = None" by simp_all
  from later(1) have "\<forall>job'. poll_job (job_id, job') (run cs s') = (Inr (), run cs s')"
    by (simp add: poll_job_untracked)
  with now later show ?thesis by simp
qed

theorem finished_job_is_forgotten_witness:
  "event_queue (snd (poll_job (''1'', FinishedJob ''EXIT'') one_pending))
     = event_queue one_pending @ [FinishedEvent 0 1 True]
   \<and> \<not> starts_attempt 0 ''1'' (Kill 0 (answer []))
   \<and> \<not> starts_attempt 0 ''1'' (Poll (answer ''1 user RUN''))
   \<and> jobs (run [Kill 0 (answer []), Poll (answer ''1 user RUN'')]
        (snd (poll_job (''1'', FinishedJob ''EXIT'') one_pending))) ''1'' = None
   \<and> iens2jobid (run [Kill 0 (answer []), Poll (answer ''1 user RUN'')]
        (snd (poll_job (''1'', FinishedJob ''EXIT'') one_pending))) 0 = None"
proof -
  let ?s' = "snd (poll_job (''1'', FinishedJob ''EXIT'') one_pending)"
  let ?cs = "[Kill 0 (answer []), Poll (answer ''1 user RUN'')]"
  have h1: "poll_job (''1'', FinishedJob ''EXIT'') one_pending = (Inr (), ?s')"
    by (simp add: poll_job_EXIT)
  have h2: "event_queue ?s' = event_queue one_pending @ [FinishedEvent 0 1 True]"
    by (simp add: poll_job_EXIT) (simp add: one_pending_eq)
  have h3: "\<forall>c \<in> set ?cs. \<not> starts_attempt 0 ''1'' c" by simp
  from finished_job_is_forgotten[OF h1 h2 h3] h2 show ?thesis by simp
qed

text \<open>
  Claim C8 as stated fails: with one attempt per realization, a backend that answers two
  submissions with the same identifier leaves two realizations pointing to one job.
\<close>

theorem backend_repeats_identifier:
  "one_attempt
     [Submit 0 ''job.sh'' [] ''dummy'' None (answer ''Job <1> is submitted to normal queue''),
      Submit 1 ''job.sh'' [] ''dummy'' None (answer ''Job <1> is submitted to normal queue'')]
     (init None ''bsub'' {})
   \<and> \<not> mutually_inverse
       (run [Submit 0 ''job.sh'' [] ''dummy'' None (answer ''Job <1> is submitted to normal queue''),
             Submit 1 ''job.sh'' [] ''dummy'' None (answer ''Job <1> is submitted to normal queue'')]
          (init None ''bsub'' {}))"
proof -
  let ?cs = "[Submit 0 ''job.sh'' [] ''dummy'' None (answer ''Job <1> is submitted to normal queue''),
      Submit 1 ''job.sh'' [] ''dummy'' None (answer ''Job <1> is submitted to normal queue'')]"
  have e: "snd (submit 0 ''job.sh'' [] ''dummy'' None
              (answer ''Job <1> is submitted to normal queue'') (init None ''bsub'' {})) = one_pending"
    by (simp add: one_pending_def)
  have o: "one_attempt ?cs (init None ''bsub'' {})"
    by (simp add: e one_pending_eq) (simp add: init_def)
  have "\<not> mutually_inverse (run ?cs (init None ''bsub'' {}))"
  proof
    assume inv: "mutually_inverse (run ?cs (init None ''bsub'' {}))"
    have "iens2jobid (run ?cs (init None ''bsub'' {})) 0 = Some ''1''"
      by (simp only: two_realizations_one_id) simp
    from mutually_inverse_iens[OF inv this]
    obtain st where "jobs (run ?cs (init None ''bsub'' {})) ''1'' = Some (0, st)" by blast
    then show False by (simp only: two_realizations_one_id) simp
  qed
  with o show ?thesis by simp
qed

text \<open>
  Claim C8, as amended. After any run of \<^verbatim>\<open>submit\<close>, poll cycles and \<^verbatim>\<open>kill\<close> from a new
  driver, with at most one tracked attempt per realization at a time and a backend that
  never hands out an identifier that is still tracked, the two maps of the driver are
  inverse to each other.
\<close>

theorem maps_stay_inverse:
  assumes "one_attempt cs (init qn bsub ds)" and "fresh_ids cs (init qn bsub ds)"
  shows "mutually_inverse (run cs (init qn bsub ds))"
proof -
  have "mutually_inverse (init qn bsub ds)" by (simp add: mutually_inverse_def init_def)
  with assms show ?thesis by (rule run_inverse)
qed

theorem maps_stay_inverse_witness:
  "one_attempt
     [Submit 0 ''job.sh'' [] ''dummy'' None (answer ''Job <1> is submitted to normal queue''),
      Poll (answer ''1 user RUN'')] (init None ''bsub'' {})
   \<and> fresh_ids
     [Submit 0 ''job.sh'' [] ''dummy'' None (answer ''Job <1> is submitted to normal queue''),
      Poll (answer ''1 user RUN'')] (init None ''bsub'' {})
   \<and> mutually_inverse
       (run [Submit 0 ''job.sh'' [] ''dummy'' None (answer ''Job <1> is submitted to normal queue''),
             Poll (answer ''1 user RUN'')] (init None ''bsub'' {}))"
proof -
  let ?cs = "[Submit 0 ''job.sh'' [] ''dummy'' None (answer ''Job <1> is submitted to normal queue''),
      Poll (answer ''1 user RUN'')]"
  have a: "accepted_id (Submit 0 ''job.sh'' [] ''dummy'' None
             (answer ''Job <1> is submitted to normal queue'')) = Some ''1''"
    by (simp add: answer_def search_1 del: search_submitted.simps)
  have h1: "one_attempt ?cs (init None ''bsub'' {})" by (simp add: init_def)
  have h2: "fresh_ids ?cs (init None ''bsub'' {})"
    unfolding fresh_ids.simps a by (simp add: init_def)
  from maps_stay_inverse[OF h1 h2] h1 h2 show ?thesis by blast
qed

subsection \<open>The claim about \<^verbatim>\<open>parse_bjobs\<close>\<close>

text \<open>
  Claim C9 as stated fails: two lines that report the same identifier give one entry, and
  the entry of the first line is not in the result.
\<close>

theorem repeated_identifier_has_one_entry:
  "filter reports_job (splitlines (''1 user RUN'' @ [CHR 0x0A] @ ''1 user DONE''))
     = [''1 user RUN'', ''1 user DONE'']
   \<and> entry ''1 user RUN'' = (''1'', [(''job_state'', ''RUN'')])
   \<and> snd (parse_bjobs (''1 user RUN'' @ [CHR 0x0A] @ ''1 user DONE''))
     = [(''jobs'', [(''1'', [(''job_state'', ''DONE'')])])]"
  by code_simp

text \<open>
  Claim C9, as amended. For every text \<^verbatim>\<open>parse_bjobs\<close> returns \<^verbatim>\<open>{"jobs": m}\<close>, where \<open>m\<close>
  has one entry per first token of the lines that report a job: the entry maps the token
  to the state of the last such line with that first token, and no other line contributes.
  When no two reporting lines share their first token, \<open>m\<close> has exactly the entries of the
  reporting lines, in their order.
\<close>

theorem parse_bjobs_entries:
  "\<exists>m. snd (parse_bjobs out) = [(''jobs'', m)]
     \<and> distinct (map fst m)
     \<and> map_of m = map_of (rev (map entry (filter reports_job (splitlines out))))
     \<and> (distinct (map fst (map entry (filter reports_job (splitlines out)))) \<longrightarrow>
          m = map entry (filter reports_job (splitlines out)))"
proof -
  let ?es = "map entry (filter reports_job (splitlines out))"
  let ?m = "snd (parse_bjobs_data out)"
  have m: "?m = foldl (\<lambda>d e. AList.update (fst e) (snd e) d) [] ?es"
    by (simp add: parse_bjobs_data_def foldl_parse_bjobs_line_data)
  have "snd (parse_bjobs out) = [(''jobs'', ?m)]" by (simp add: parse_bjobs_def)
  moreover have "distinct (map fst ?m)" by (rule parse_bjobs_data_distinct)
  moreover have "map_of ?m = map_of (rev ?es)"
    unfolding m by (simp only: map_of_foldl_update append_Nil2)
  moreover have "distinct (map fst ?es) \<longrightarrow> ?m = ?es"
    unfolding m using foldl_update_distinct[of "[]" ?es] by simp
  ultimately show ?thesis by blast
qed

theorem parse_bjobs_entries_witness:
  "distinct (map fst (map entry (filter reports_job (splitlines
      (''JOBID USER STAT'' @ [CHR 0x0A] @ ''1 user RUN normal''
         @ [CHR 0x0A] @ ''2 user FOO normal'' @ [CHR 0x0A] @ ''3 user DONE'')))))
   \<and> snd (parse_bjobs (''JOBID USER STAT'' @ [CHR 0x0A] @ ''1 user RUN normal''
         @ [CHR 0x0A] @ ''2 user FOO normal'' @ [CHR 0x0A] @ ''3 user DONE''))
      = [(''jobs'', [(''1'', [(''job_state'', ''RUN'')]), (''3'', [(''job_state'', ''DONE'')])])]"
proof -
  let ?out = "''JOBID USER STAT'' @ [CHR 0x0A] @ ''1 user RUN normal''
         @ [CHR 0x0A] @ ''2 user FOO normal'' @ [CHR 0x0A] @ ''3 user DONE''"
  have es: "map entry (filter reports_job (splitlines ?out))
     = [(''1'', [(''job_state'', ''RUN'')]), (''3'', [(''job_state'', ''DONE'')])]"
    by (simp only: lines_two_reports entries_two_reports)
  have h: "distinct (map fst (map entry (filter reports_job (splitlines ?out))))"
    by (simp only: es) simp
  from parse_bjobs_entries[of ?out] h es show ?thesis by auto
qed

end
